theory Spec2Isabelle
  imports Main "HOL-Library.Word"
begin

unbundle bit_operations_syntax

section \<open>The match finder of match\_p.h\<close>

text \<open>
  \<open>longest_match\<close> walks the hash chain of the current string and returns the length
  of the longest earlier occurrence it finds; the position of that occurrence is stored
  in the field \<open>match_start\<close> of the compressor state. The header holds several
  realisations of the function, one of which is selected by the preprocessor:
  \<open>std1\<close> (byte comparisons), \<open>std2\<close> (16-bit comparisons) and \<open>std3\<close>
  (32-bit probes, 64-bit comparisons and a count of trailing zero bits). A fourth one,
  \<open>std33\<close>, is selected by no branch of the preprocessor and is not modelled.
\<close>

subsection \<open>Data model\<close>

text \<open>
  The fields of \<open>deflate_state\<close> that \<open>longest_match\<close> touches. \<open>unsigned\<close> and
  \<open>int\<close> fields are 32-bit words; the \<open>int\<close> fields \<open>nice_match\<close> and \<open>level\<close>
  are compared as the source compares them, \<open>nice_match\<close> after its cast to
  \<open>unsigned\<close> and \<open>level\<close> with the signed order \<open><s\<close>. \<open>IPos\<close> is \<open>unsigned\<close>
  and \<open>Pos\<close>, the type of the entries of \<open>prev\<close>, is \<open>uint16_t\<close>.

  \<open>window\<close> and \<open>prev\<close> are pointers in C: they are modelled as the memory they
  point into, a total map from an offset to the byte (or the \<open>Pos\<close>) stored there.
  Offsets are integers, as C pointer arithmetic is. The function checks no bound: that
  its reads stay inside the buffer is the caller's duty (the \<open>Assert\<close> "need
  lookahead", compiled out of a release build), and the bytes past the valid input are
  whatever the buffer holds. The properties below hold for every content of the memory.

  \<open>max_dist\<close> is the value of the macro \<open>MAX_DIST(s)\<close>, which deflate.h computes from
  the state, and \<open>TRIGGER_LEVEL\<close>, a constant of deflate.h, is the parameter \<open>TL\<close> of
  the functions below. \<open>MAX_MATCH\<close> is 258, as the source asserts.
\<close>

record deflate_state =
  window :: "int \<Rightarrow> 8 word"
  prev :: "int \<Rightarrow> 16 word"
  w_mask :: "32 word"
  strstart :: "32 word"
  match_start :: "32 word"
  prev_length :: "32 word"
  lookahead :: "32 word"
  max_chain_length :: "32 word"
  good_match :: "32 word"
  nice_match :: "32 word"
  level :: "32 word"
  max_dist :: "32 word"

definition MAX_MATCH :: int where
  "MAX_MATCH = 258"

text \<open>The two ways a pass through the body of a C loop ends.\<close>

datatype 'a ctl = Break 'a | Continue 'a

text \<open>
  The condition of the outer \<open>do ... while\<close> loop,
  \<open>(cur_match = prev[cur_match & wmask]) > limit && --chain_length\<close>:
  the next candidate and the remaining budget when the walk goes on. The pre-decrement
  is on an \<open>unsigned\<close>, so a budget of 0 wraps to \<open>2^32 - 1\<close>.
\<close>

definition next_link :: "deflate_state \<Rightarrow> 32 word \<Rightarrow> 32 word \<Rightarrow> 32 word \<Rightarrow> 32 word
    \<Rightarrow> (32 word \<times> 32 word) option" where
  "next_link s wmask limit cur_match chain_length =
     (if limit < ucast (prev s (uint (cur_match AND wmask)))
      then (if chain_length - 1 \<noteq> 0
            then Some (ucast (prev s (uint (cur_match AND wmask))), chain_length - 1)
            else None)
      else None)"

text \<open>
  The start-up of the function, before the loop:
  \<open>best_len = s->prev_length ? s->prev_length : 1\<close>; the chain budget, quartered when
  \<open>best_len >= s->good_match\<close>; the effective \<open>nice_match\<close>, which is the field
  read as an \<open>unsigned\<close> and replaced by \<open>s->lookahead\<close> when it is greater; and
  \<open>limit = s->strstart > MAX_DIST(s) ? s->strstart - MAX_DIST(s) : 0\<close>.
\<close>

definition start_len :: "deflate_state \<Rightarrow> 32 word" where
  "start_len s = (if prev_length s \<noteq> 0 then prev_length s else 1)"

definition chain_budget :: "deflate_state \<Rightarrow> 32 word" where
  "chain_budget s =
     (if good_match s \<le> start_len s then drop_bit 2 (max_chain_length s)
      else max_chain_length s)"

definition nice_eff :: "deflate_state \<Rightarrow> 32 word" where
  "nice_eff s = (if lookahead s < nice_match s then lookahead s else nice_match s)"

definition dist_limit :: "deflate_state \<Rightarrow> 32 word" where
  "dist_limit s = (if max_dist s < strstart s then strstart s - max_dist s else 0)"

text \<open>
  The log of a walk, used to state what the loop examines: one entry for every candidate
  whose bytes are compared, with the candidate, the value of \<open>best_len\<close> at that
  moment and, when the candidate passed the quick rejection, the length the extension
  computed for it.
\<close>

record probe =
  p_cand :: "32 word"
  p_best :: "32 word"
  p_len :: "32 word option"

text \<open>
  A probe improves when its length beats \<open>best_len\<close>; it is accepted when it improves
  and reaches the effective \<open>nice_match\<close>; the walk gives up on it when it was extended
  without improving and the level is below \<open>TRIGGER_LEVEL\<close>.
\<close>

definition improves :: "probe \<Rightarrow> bool" where
  "improves e = (case p_len e of None \<Rightarrow> False | Some len \<Rightarrow> p_best e < len)"

definition accepts :: "32 word \<Rightarrow> probe \<Rightarrow> bool" where
  "accepts nice e = (case p_len e of None \<Rightarrow> False | Some len \<Rightarrow> p_best e < len \<and> nice \<le> len)"

definition gives_up :: "32 word \<Rightarrow> deflate_state \<Rightarrow> probe \<Rightarrow> bool" where
  "gives_up TL s e =
     (case p_len e of None \<Rightarrow> False | Some len \<Rightarrow> \<not> p_best e < len \<and> level s <s TL)"

subsection \<open>The std1 variant\<close>

text \<open>The locals of \<open>longest_match\<close> that change in the loop.\<close>

record locals1 =
  best_len :: "32 word"
  scan_end1 :: "8 word"
  scan_end :: "8 word"

text \<open>
  The inner loop
  \<open>do { } while (*++scan == *++match && ... && scan < strend)\<close>
  with its eight pre-incremented comparisons; the result is the final \<open>scan\<close>.
\<close>

function scan_loop1 :: "(int \<Rightarrow> 8 word) \<Rightarrow> int \<Rightarrow> int \<Rightarrow> int \<Rightarrow> int" where
  "scan_loop1 w strend scan match =
     (if w (scan + 1) \<noteq> w (match + 1) then scan + 1
      else if w (scan + 2) \<noteq> w (match + 2) then scan + 2
      else if w (scan + 3) \<noteq> w (match + 3) then scan + 3
      else if w (scan + 4) \<noteq> w (match + 4) then scan + 4
      else if w (scan + 5) \<noteq> w (match + 5) then scan + 5
      else if w (scan + 6) \<noteq> w (match + 6) then scan + 6
      else if w (scan + 7) \<noteq> w (match + 7) then scan + 7
      else if w (scan + 8) \<noteq> w (match + 8) then scan + 8
      else if scan + 8 < strend then scan_loop1 w strend (scan + 8) (match + 8)
      else scan + 8)"
  by pat_completeness auto
termination
  by (relation "measure (\<lambda>(w, strend, scan, match). nat (strend - scan))") auto

declare scan_loop1.simps [simp del]

text \<open>The four byte comparisons that skip a candidate which cannot beat \<open>best_len\<close>.\<close>

definition quick_reject1 :: "deflate_state \<Rightarrow> locals1 \<Rightarrow> 32 word \<Rightarrow> bool" where
  "quick_reject1 s l cur_match =
     (window s (uint cur_match + uint (best_len l)) \<noteq> scan_end l \<or>
      window s (uint cur_match + uint (best_len l - 1)) \<noteq> scan_end1 l \<or>
      window s (uint cur_match) \<noteq> window s (uint (strstart s)) \<or>
      window s (uint cur_match + 1) \<noteq> window s (uint (strstart s) + 1))"

text \<open>
  The extension of a candidate that passed the quick rejection:
  \<open>scan += 2; match++;\<close>, the inner loop, and
  \<open>len = MAX_MATCH - (int)(strend - scan)\<close> with \<open>strend = scan + MAX_MATCH\<close>.
\<close>

definition match_len1 :: "deflate_state \<Rightarrow> 32 word \<Rightarrow> 32 word" where
  "match_len1 s cur_match =
     word_of_int (MAX_MATCH -
       (uint (strstart s) + MAX_MATCH -
        scan_loop1 (window s) (uint (strstart s) + MAX_MATCH)
          (uint (strstart s) + 2) (uint cur_match + 2)))"

text \<open>One pass through the body of the outer loop, \<open>TL\<close> being \<open>TRIGGER_LEVEL\<close>.\<close>

definition body1 :: "32 word \<Rightarrow> 32 word \<Rightarrow> 32 word \<Rightarrow> deflate_state \<times> locals1
    \<Rightarrow> (deflate_state \<times> locals1) ctl" where
  "body1 TL nice cur_match r =
     (if strstart (fst r) \<le> cur_match then Break r
      else if quick_reject1 (fst r) (snd r) cur_match then Continue r
      else if best_len (snd r) < match_len1 (fst r) cur_match
      then (if nice \<le> match_len1 (fst r) cur_match
            then Break ((fst r)\<lparr>match_start := cur_match\<rparr>,
                        (snd r)\<lparr>best_len := match_len1 (fst r) cur_match\<rparr>)
            else Continue ((fst r)\<lparr>match_start := cur_match\<rparr>,
                   (snd r)\<lparr>best_len := match_len1 (fst r) cur_match,
                     scan_end1 := window (fst r)
                       (uint (strstart (fst r)) + uint (match_len1 (fst r) cur_match - 1)),
                     scan_end := window (fst r)
                       (uint (strstart (fst r)) + uint (match_len1 (fst r) cur_match))\<rparr>))
      else if level (fst r) <s TL then Break r
      else Continue r)"

text \<open>The outer \<open>do ... while\<close> loop.\<close>

function walk1 :: "32 word \<Rightarrow> 32 word \<Rightarrow> 32 word \<Rightarrow> 32 word \<Rightarrow> 32 word \<Rightarrow> 32 word
    \<Rightarrow> deflate_state \<times> locals1 \<Rightarrow> deflate_state \<times> locals1" where
  "walk1 TL nice wmask limit cur_match chain_length r =
     (case body1 TL nice cur_match r of
        Break r' \<Rightarrow> r'
      | Continue r' \<Rightarrow>
          (case next_link (fst r') wmask limit cur_match chain_length of
             None \<Rightarrow> r'
           | Some p \<Rightarrow> walk1 TL nice wmask limit (fst p) (snd p) r'))"
  by pat_completeness auto
termination
proof (relation "measure (\<lambda>(TL, nice, wmask, limit, cm, cl, r). unat (cl - 1))", goal_cases)
  case 1
  show ?case by simp
next
  case (2 TL nice wmask limit cm cl r r' p)
  then have "snd p = cl - 1" and "cl - 1 \<noteq> 0"
    by (auto simp: next_link_def split: if_splits)
  then show ?case
    using unat_minus_one [of "cl - 1"] unat_eq_zero [of "cl - 1"] by simp
qed

declare walk1.simps [simp del]

text \<open>
  The function: the start-up, the walk, and the final clamp
  \<open>if (best_len <= s->lookahead) return best_len; return s->lookahead;\<close>.
  The result is the returned length and the state after the call.
\<close>

definition start_locals1 :: "deflate_state \<Rightarrow> locals1" where
  "start_locals1 s =
     \<lparr>best_len = start_len s,
      scan_end1 = window s (uint (strstart s) + uint (start_len s - 1)),
      scan_end = window s (uint (strstart s) + uint (start_len s))\<rparr>"

definition finish1 :: "deflate_state \<times> locals1 \<Rightarrow> 32 word \<times> deflate_state" where
  "finish1 r =
     (if best_len (snd r) \<le> lookahead (fst r) then best_len (snd r) else lookahead (fst r),
      fst r)"

definition longest_match1 :: "32 word \<Rightarrow> deflate_state \<Rightarrow> 32 word
    \<Rightarrow> 32 word \<times> deflate_state" where
  "longest_match1 TL s cur_match =
     finish1 (walk1 TL (nice_eff s) (w_mask s) (dist_limit s) cur_match (chain_budget s)
       (s, start_locals1 s))"

text \<open>The log of the outer loop: it follows \<open>walk1\<close> step by step.\<close>

definition probe1 :: "deflate_state \<times> locals1 \<Rightarrow> 32 word \<Rightarrow> probe" where
  "probe1 r cur_match =
     \<lparr>p_cand = cur_match, p_best = best_len (snd r),
      p_len = (if quick_reject1 (fst r) (snd r) cur_match then None
               else Some (match_len1 (fst r) cur_match))\<rparr>"

function trace1 :: "32 word \<Rightarrow> 32 word \<Rightarrow> 32 word \<Rightarrow> 32 word \<Rightarrow> 32 word \<Rightarrow> 32 word
    \<Rightarrow> deflate_state \<times> locals1 \<Rightarrow> probe list" where
  "trace1 TL nice wmask limit cur_match chain_length r =
     (if strstart (fst r) \<le> cur_match then []
      else probe1 r cur_match #
           (case body1 TL nice cur_match r of
              Break r' \<Rightarrow> []
            | Continue r' \<Rightarrow>
                (case next_link (fst r') wmask limit cur_match chain_length of
                   None \<Rightarrow> []
                 | Some p \<Rightarrow> trace1 TL nice wmask limit (fst p) (snd p) r')))"
  by pat_completeness auto
termination
proof (relation "measure (\<lambda>(TL, nice, wmask, limit, cm, cl, r). unat (cl - 1))", goal_cases)
  case 1
  show ?case by simp
next
  case (2 TL nice wmask limit cm cl r r' p)
  then have "snd p = cl - 1" and "cl - 1 \<noteq> 0"
    by (auto simp: next_link_def split: if_splits)
  then show ?case
    using unat_minus_one [of "cl - 1"] unat_eq_zero [of "cl - 1"] by simp
qed

declare trace1.simps [simp del]

text \<open>The value of \<open>best_len\<close> when the loop is left, before the final clamp.\<close>

definition best_found1 :: "32 word \<Rightarrow> deflate_state \<Rightarrow> 32 word \<Rightarrow> 32 word" where
  "best_found1 TL s cur_match =
     best_len (snd (walk1 TL (nice_eff s) (w_mask s) (dist_limit s) cur_match (chain_budget s)
       (s, start_locals1 s)))"

definition probes1 :: "32 word \<Rightarrow> deflate_state \<Rightarrow> 32 word \<Rightarrow> probe list" where
  "probes1 TL s cur_match =
     trace1 TL (nice_eff s) (w_mask s) (dist_limit s) cur_match (chain_budget s)
       (s, start_locals1 s)"

subsection \<open>The std2 variant\<close>

text \<open>
  \<open>memcpy\<close> of two bytes into a \<open>uint16_t\<close>, on a little-endian machine (the byte
  order plays no role: the values are only compared for equality).
\<close>

definition load16 :: "(int \<Rightarrow> 8 word) \<Rightarrow> int \<Rightarrow> 16 word" where
  "load16 w p = word_cat (w (p + 1)) (w p)"

record locals2 =
  best_len2 :: "32 word"
  scan_start2 :: "16 word"
  scan_end2 :: "16 word"

text \<open>
  The loop condition of std2 tests the budget first:
  \<open>--chain_length && (cur_match = prev[cur_match & wmask]) > limit\<close>.
\<close>

definition next_link2 :: "deflate_state \<Rightarrow> 32 word \<Rightarrow> 32 word \<Rightarrow> 32 word \<Rightarrow> 32 word
    \<Rightarrow> (32 word \<times> 32 word) option" where
  "next_link2 s wmask limit cur_match chain_length =
     (if chain_length - 1 \<noteq> 0
      then (if limit < ucast (prev s (uint (cur_match AND wmask)))
            then Some (ucast (prev s (uint (cur_match AND wmask))), chain_length - 1)
            else None)
      else None)"

text \<open>
  The inner loop: four 16-bit comparisons per round, each followed by
  \<open>match += 2; scan += 2\<close>, until a pair differs or \<open>scan >= strend\<close>. The result
  is the final \<open>scan\<close> and \<open>match\<close>.
\<close>

function scan_loop2 :: "(int \<Rightarrow> 8 word) \<Rightarrow> int \<Rightarrow> int \<Rightarrow> int \<Rightarrow> int \<times> int" where
  "scan_loop2 w strend scan match =
     (if load16 w match \<noteq> load16 w scan then (scan, match)
      else if load16 w (match + 2) \<noteq> load16 w (scan + 2) then (scan + 2, match + 2)
      else if load16 w (match + 4) \<noteq> load16 w (scan + 4) then (scan + 4, match + 4)
      else if load16 w (match + 6) \<noteq> load16 w (scan + 6) then (scan + 6, match + 6)
      else if scan + 8 < strend then scan_loop2 w strend (scan + 8) (match + 8)
      else (scan + 8, match + 8))"
  by pat_completeness auto
termination
  by (relation "measure (\<lambda>(w, strend, scan, match). nat (strend - scan))") auto

declare scan_loop2.simps [simp del]

definition quick_reject2 :: "deflate_state \<Rightarrow> locals2 \<Rightarrow> 32 word \<Rightarrow> bool" where
  "quick_reject2 s l cur_match =
     (load16 (window s) (uint cur_match + uint (best_len2 l) - 1) \<noteq> scan_end2 l \<or>
      load16 (window s) (uint cur_match) \<noteq> scan_start2 l)"

text \<open>
  \<open>scan++; match++;\<close>, the inner loop, \<open>if (*scan == *match) scan++;\<close> and
  \<open>len = (MAX_MATCH - 1) - (int)(strend - scan)\<close> with
  \<open>strend = scan + MAX_MATCH - 1\<close>.
\<close>

definition match_len2 :: "deflate_state \<Rightarrow> 32 word \<Rightarrow> 32 word" where
  "match_len2 s cur_match =
     (let strend = uint (strstart s) + MAX_MATCH - 1;
          sm = scan_loop2 (window s) strend (uint (strstart s) + 1) (uint cur_match + 1);
          scan = (if window s (fst sm) = window s (snd sm) then fst sm + 1 else fst sm)
      in word_of_int ((MAX_MATCH - 1) - (strend - scan)))"

definition body2 :: "32 word \<Rightarrow> 32 word \<Rightarrow> 32 word \<Rightarrow> deflate_state \<times> locals2
    \<Rightarrow> (deflate_state \<times> locals2) ctl" where
  "body2 TL nice cur_match r =
     (if strstart (fst r) \<le> cur_match then Break r
      else if quick_reject2 (fst r) (snd r) cur_match then Continue r
      else if best_len2 (snd r) < match_len2 (fst r) cur_match
      then (if nice \<le> match_len2 (fst r) cur_match
            then Break ((fst r)\<lparr>match_start := cur_match\<rparr>,
                        (snd r)\<lparr>best_len2 := match_len2 (fst r) cur_match\<rparr>)
            else Continue ((fst r)\<lparr>match_start := cur_match\<rparr>,
                   (snd r)\<lparr>best_len2 := match_len2 (fst r) cur_match,
                     scan_end2 := load16 (window (fst r))
                       (uint (strstart (fst r)) + uint (match_len2 (fst r) cur_match) - 1)\<rparr>))
      else if level (fst r) <s TL then Break r
      else Continue r)"

function walk2 :: "32 word \<Rightarrow> 32 word \<Rightarrow> 32 word \<Rightarrow> 32 word \<Rightarrow> 32 word \<Rightarrow> 32 word
    \<Rightarrow> deflate_state \<times> locals2 \<Rightarrow> deflate_state \<times> locals2" where
  "walk2 TL nice wmask limit cur_match chain_length r =
     (case body2 TL nice cur_match r of
        Break r' \<Rightarrow> r'
      | Continue r' \<Rightarrow>
          (case next_link2 (fst r') wmask limit cur_match chain_length of
             None \<Rightarrow> r'
           | Some p \<Rightarrow> walk2 TL nice wmask limit (fst p) (snd p) r'))"
  by pat_completeness auto
termination
proof (relation "measure (\<lambda>(TL, nice, wmask, limit, cm, cl, r). unat (cl - 1))", goal_cases)
  case 1
  show ?case by simp
next
  case (2 TL nice wmask limit cm cl r r' p)
  then have "snd p = cl - 1" and "cl - 1 \<noteq> 0"
    by (auto simp: next_link2_def split: if_splits)
  then show ?case
    using unat_minus_one [of "cl - 1"] unat_eq_zero [of "cl - 1"] by simp
qed

declare walk2.simps [simp del]

definition start_locals2 :: "deflate_state \<Rightarrow> locals2" where
  "start_locals2 s =
     \<lparr>best_len2 = start_len s,
      scan_start2 = load16 (window s) (uint (strstart s)),
      scan_end2 = load16 (window s) (uint (strstart s) + uint (start_len s) - 1)\<rparr>"

definition finish2 :: "deflate_state \<times> locals2 \<Rightarrow> 32 word \<times> deflate_state" where
  "finish2 r =
     (if best_len2 (snd r) \<le> lookahead (fst r) then best_len2 (snd r) else lookahead (fst r),
      fst r)"

definition longest_match2 :: "32 word \<Rightarrow> deflate_state \<Rightarrow> 32 word
    \<Rightarrow> 32 word \<times> deflate_state" where
  "longest_match2 TL s cur_match =
     finish2 (walk2 TL (nice_eff s) (w_mask s) (dist_limit s) cur_match (chain_budget s)
       (s, start_locals2 s))"

definition probe2 :: "deflate_state \<times> locals2 \<Rightarrow> 32 word \<Rightarrow> probe" where
  "probe2 r cur_match =
     \<lparr>p_cand = cur_match, p_best = best_len2 (snd r),
      p_len = (if quick_reject2 (fst r) (snd r) cur_match then None
               else Some (match_len2 (fst r) cur_match))\<rparr>"

function trace2 :: "32 word \<Rightarrow> 32 word \<Rightarrow> 32 word \<Rightarrow> 32 word \<Rightarrow> 32 word \<Rightarrow> 32 word
    \<Rightarrow> deflate_state \<times> locals2 \<Rightarrow> probe list" where
  "trace2 TL nice wmask limit cur_match chain_length r =
     (if strstart (fst r) \<le> cur_match then []
      else probe2 r cur_match #
           (case body2 TL nice cur_match r of
              Break r' \<Rightarrow> []
            | Continue r' \<Rightarrow>
                (case next_link2 (fst r') wmask limit cur_match chain_length of
                   None \<Rightarrow> []
                 | Some p \<Rightarrow> trace2 TL nice wmask limit (fst p) (snd p) r')))"
  by pat_completeness auto
termination
proof (relation "measure (\<lambda>(TL, nice, wmask, limit, cm, cl, r). unat (cl - 1))", goal_cases)
  case 1
  show ?case by simp
next
  case (2 TL nice wmask limit cm cl r r' p)
  then have "snd p = cl - 1" and "cl - 1 \<noteq> 0"
    by (auto simp: next_link2_def split: if_splits)
  then show ?case
    using unat_minus_one [of "cl - 1"] unat_eq_zero [of "cl - 1"] by simp
qed

declare trace2.simps [simp del]

definition probes2 :: "32 word \<Rightarrow> deflate_state \<Rightarrow> 32 word \<Rightarrow> probe list" where
  "probes2 TL s cur_match =
     trace2 TL (nice_eff s) (w_mask s) (dist_limit s) cur_match (chain_budget s)
       (s, start_locals2 s)"

definition best_found2 :: "32 word \<Rightarrow> deflate_state \<Rightarrow> 32 word \<Rightarrow> 32 word" where
  "best_found2 TL s cur_match =
     best_len2 (snd (walk2 TL (nice_eff s) (w_mask s) (dist_limit s) cur_match (chain_budget s)
       (s, start_locals2 s)))"

subsection \<open>The std3 variant\<close>

text \<open>
  Loads of a \<open>uint32_t\<close> and of a \<open>uint64_t\<close> through a cast pointer, on a
  little-endian machine (std3 is selected for little-endian builds only), and
  \<open>__builtin_ctzl\<close> on a 64-bit \<open>unsigned long\<close>: the number of zero bits below the
  lowest set bit.
\<close>

definition load32 :: "(int \<Rightarrow> 8 word) \<Rightarrow> int \<Rightarrow> 32 word" where
  "load32 w p = word_rcat [w (p + 3), w (p + 2), w (p + 1), w p]"

definition load64 :: "(int \<Rightarrow> 8 word) \<Rightarrow> int \<Rightarrow> 64 word" where
  "load64 w p =
     word_rcat [w (p + 7), w (p + 6), w (p + 5), w (p + 4), w (p + 3), w (p + 2), w (p + 1), w p]"

definition ctzl :: "64 word \<Rightarrow> nat" where
  "ctzl x = length (takeWhile (\<lambda>i. \<not> bit x i) [0..<64])"

text \<open>
  \<open>best_len\<close> is an \<open>int\<close> here, initialised to \<open>s->prev_length\<close> without the
  replacement of 0 by 1, and \<open>scan_end\<close> holds the four bytes that end at offset
  \<open>best_len\<close>.
\<close>

record locals3 =
  best_len3 :: "32 word"
  scan_start3 :: "32 word"
  scan_end3 :: "32 word"

function scan_loop3 :: "(int \<Rightarrow> 8 word) \<Rightarrow> int \<Rightarrow> int \<Rightarrow> int \<Rightarrow> int" where
  "scan_loop3 w strend scan match =
     (if load64 w scan XOR load64 w match \<noteq> 0
      then scan + int (ctzl (load64 w scan XOR load64 w match) div 8)
      else if scan + 8 < strend then scan_loop3 w strend (scan + 8) (match + 8)
      else scan + 8)"
  by pat_completeness auto
termination
  by (relation "measure (\<lambda>(w, strend, scan, match). nat (strend - scan))") auto

declare scan_loop3.simps [simp del]

definition quick_reject3 :: "deflate_state \<Rightarrow> locals3 \<Rightarrow> 32 word \<Rightarrow> bool" where
  "quick_reject3 s l cur_match =
     (load32 (window s) (uint cur_match + sint (best_len3 l) - 3) \<noteq> scan_end3 l \<or>
      load32 (window s) (uint cur_match) \<noteq> scan_start3 l)"

text \<open>
  \<open>scan += 4, match += 4;\<close>, the inner loop, \<open>if (scan > strend) scan = strend;\<close>
  and \<open>len = MAX_MATCH - (int)(strend - scan)\<close>.
\<close>

definition match_len3 :: "deflate_state \<Rightarrow> 32 word \<Rightarrow> 32 word" where
  "match_len3 s cur_match =
     (let strend = uint (strstart s) + MAX_MATCH;
          scan = scan_loop3 (window s) strend (uint (strstart s) + 4) (uint cur_match + 4)
      in word_of_int (MAX_MATCH - (strend - (if strend < scan then strend else scan))))"

text \<open>
  One pass through the outer loop. The small inner loop that skips rejected candidates
  goes on under the very condition of the outer loop, so a rejected candidate is a
  \<open>Continue\<close> here. There is neither a test of \<open>cur_match\<close> against \<open>strstart\<close>
  (it is an \<open>Assert\<close>, compiled out) nor a test of \<open>s->level\<close>; the comparisons of
  \<open>len\<close> are between \<open>int\<close>s.
\<close>

definition body3 :: "32 word \<Rightarrow> 32 word \<Rightarrow> deflate_state \<times> locals3
    \<Rightarrow> (deflate_state \<times> locals3) ctl" where
  "body3 nice cur_match r =
     (if quick_reject3 (fst r) (snd r) cur_match then Continue r
      else if best_len3 (snd r) <s match_len3 (fst r) cur_match
      then (if nice \<le>s match_len3 (fst r) cur_match
            then Break ((fst r)\<lparr>match_start := cur_match\<rparr>,
                        (snd r)\<lparr>best_len3 := match_len3 (fst r) cur_match\<rparr>)
            else Continue ((fst r)\<lparr>match_start := cur_match\<rparr>,
                   (snd r)\<lparr>best_len3 := match_len3 (fst r) cur_match,
                     scan_end3 := load32 (window (fst r))
                       (uint (strstart (fst r)) + sint (match_len3 (fst r) cur_match) - 3)\<rparr>))
      else Continue r)"

function walk3 :: "32 word \<Rightarrow> 32 word \<Rightarrow> 32 word \<Rightarrow> 32 word \<Rightarrow> 32 word
    \<Rightarrow> deflate_state \<times> locals3 \<Rightarrow> deflate_state \<times> locals3" where
  "walk3 nice wmask limit cur_match chain_length r =
     (case body3 nice cur_match r of
        Break r' \<Rightarrow> r'
      | Continue r' \<Rightarrow>
          (case next_link (fst r') wmask limit cur_match chain_length of
             None \<Rightarrow> r'
           | Some p \<Rightarrow> walk3 nice wmask limit (fst p) (snd p) r'))"
  by pat_completeness auto
termination
proof (relation "measure (\<lambda>(nice, wmask, limit, cm, cl, r). unat (cl - 1))", goal_cases)
  case 1
  show ?case by simp
next
  case (2 nice wmask limit cm cl r r' p)
  then have "snd p = cl - 1" and "cl - 1 \<noteq> 0"
    by (auto simp: next_link_def split: if_splits)
  then show ?case
    using unat_minus_one [of "cl - 1"] unat_eq_zero [of "cl - 1"] by simp
qed

declare walk3.simps [simp del]

definition start_locals3 :: "deflate_state \<Rightarrow> locals3" where
  "start_locals3 s =
     \<lparr>best_len3 = prev_length s,
      scan_start3 = load32 (window s) (uint (strstart s)),
      scan_end3 = load32 (window s) (uint (strstart s) + sint (prev_length s) - 3)\<rparr>"

definition chain_budget3 :: "deflate_state \<Rightarrow> 32 word" where
  "chain_budget3 s =
     (if good_match s \<le> prev_length s then drop_bit 2 (max_chain_length s)
      else max_chain_length s)"

definition finish3 :: "deflate_state \<times> locals3 \<Rightarrow> 32 word \<times> deflate_state" where
  "finish3 r =
     (if best_len3 (snd r) \<le> lookahead (fst r) then best_len3 (snd r) else lookahead (fst r),
      fst r)"

definition longest_match3 :: "deflate_state \<Rightarrow> 32 word \<Rightarrow> 32 word \<times> deflate_state" where
  "longest_match3 s cur_match =
     finish3 (walk3 (nice_eff s) (w_mask s) (dist_limit s) cur_match (chain_budget3 s)
       (s, start_locals3 s))"

subsection \<open>Test inputs\<close>

text \<open>Memory holding the given values from offset 0 on, and zeros elsewhere.\<close>

definition mem_of :: "'a::zero list \<Rightarrow> int \<Rightarrow> 'a" where
  "mem_of xs i = (if 0 \<le> i \<and> i < int (length xs) then xs ! nat i else 0)"


text \<open>
  A compressor state for a window of 1024 bytes (\<open>w_size = 512\<close>, so
  \<open>w_mask = 511\<close> and \<open>MAX_DIST = 512 - 262 = 250\<close>), with \<open>match_start\<close> 0.
\<close>

definition test_state :: "8 word list \<Rightarrow> (int \<Rightarrow> 16 word) \<Rightarrow> 32 word \<Rightarrow> 32 word \<Rightarrow> 32 word
    \<Rightarrow> 32 word \<Rightarrow> 32 word \<Rightarrow> 32 word \<Rightarrow> 32 word \<Rightarrow> deflate_state" where
  "test_state bytes links pos plen la chain good nice lvl =
     \<lparr>window = mem_of bytes, prev = links, w_mask = 511, strstart = pos, match_start = 0,
      prev_length = plen, lookahead = la, max_chain_length = chain, good_match = good,
      nice_match = nice, level = lvl, max_dist = 250\<rparr>"

text \<open>
  The scenario of the specification: the string \<open>abcXYZ\<close> (here the bytes 1 to 6) at
  offset 2 and again at the current position 8, followed by other bytes.
\<close>

definition st_abc :: deflate_state where
  "st_abc = test_state [9, 9, 1, 2, 3, 4, 5, 6, 1, 2, 3, 4, 5, 6, 7, 8] (\<lambda>_. 0)
     8 2 8 128 8 128 6"

text \<open>
  Ten matching bytes at offsets 2 and 20, of which only 3 are valid input
  (\<open>lookahead = 3\<close>).
\<close>

definition st_slack :: deflate_state where
  "st_slack = test_state
     [9, 9, 1, 2, 3, 4, 5, 6, 7, 8, 9, 10, 55, 0, 0, 0, 0, 0, 0, 0,
      1, 2, 3, 4, 5, 6, 7, 8, 9, 10, 77] (\<lambda>_. 0)
     20 2 3 128 8 128 6"

text \<open>
  Two candidates in one chain, at 10 (the head) and at 2, that both match the current
  string at 20 in exactly six bytes.
\<close>

definition tie_bytes :: "8 word list" where
  "tie_bytes = [9, 9, 1, 2, 3, 4, 5, 6, 8, 8, 1, 2, 3, 4, 5, 6, 9, 9, 0, 0,
                1, 2, 3, 4, 5, 6, 7, 7]"

definition st_tie :: deflate_state where
  "st_tie = test_state tie_bytes ((\<lambda>_. 0)(10 := 2)) 20 2 8 128 8 128 6"

text \<open>The same with a budget that the quartering brings to 0.\<close>

definition st_budget0 :: deflate_state where
  "st_budget0 = test_state tie_bytes ((\<lambda>_. 0)(10 := 2)) 20 2 8 3 2 128 6"

text \<open>A caller that passes a \<open>prev_length\<close> above \<open>MAX_MATCH\<close>.\<close>

definition st_long :: deflate_state where
  "st_long = test_state [9, 9, 1, 2, 3, 4, 5, 6, 1, 2, 3, 4, 5, 6, 7, 8] (\<lambda>_. 0)
     8 300 300 128 8 128 6"

text \<open>
  The end of the input: the previous position had a match of 5 bytes that reached the
  end, so now \<open>prev_length = 5\<close> and \<open>lookahead = 4\<close>.
\<close>

definition st_tail :: deflate_state where
  "st_tail = test_state [9, 9, 1, 2, 3, 4, 5, 6, 1, 2, 3, 4, 5, 6, 7, 8] (\<lambda>_. 0)
     8 5 4 128 8 128 6"

text \<open>
  \<open>nice_match = 3\<close> with \<open>prev_length = 6\<close>: the head 10 matches in 3 bytes
  (and again at offsets 5 and 6), the next candidate 2 in 8 bytes.
\<close>

definition st_nice_low :: deflate_state where
  "st_nice_low = test_state
     [9, 9, 1, 2, 3, 4, 5, 6, 7, 8, 1, 2, 3, 55, 5, 6, 7, 9, 9, 9,
      1, 2, 3, 4, 5, 6, 7, 8] ((\<lambda>_. 0)(10 := 2))
     20 6 8 128 8 3 6"

text \<open>
  \<open>nice_match = 4\<close>: the head 12 matches in 5 bytes, the next candidate 2 in 8.
\<close>

definition st_nice :: deflate_state where
  "st_nice = test_state
     [9, 9, 1, 2, 3, 4, 5, 6, 7, 8, 9, 9, 1, 2, 3, 4, 5, 66, 9, 9,
      1, 2, 3, 4, 5, 6, 7, 8] ((\<lambda>_. 0)(12 := 2))
     20 2 8 128 8 4 6"

text \<open>
  The current position is 300, so \<open>limit = 50\<close>. The head 100 matches in 4 bytes and
  links to 50, at distance exactly \<open>MAX_DIST\<close>, which matches in 8 bytes.
\<close>

definition st_far :: deflate_state where
  "st_far = test_state
     (replicate 50 0 @ [1, 2, 3, 4, 5, 6, 7, 8, 99] @ replicate 41 0 @ [1, 2, 3, 4, 9] @
      replicate 195 0 @ [1, 2, 3, 4, 5, 6, 7, 8]) ((\<lambda>_. 0)(100 := 50))
     300 2 8 128 8 128 6"

text \<open>
  Level 1 with \<open>prev_length = 8\<close>: the head 20 agrees with the current string at 40
  in the bytes 0 to 3 and 5 to 8 but not in byte 4; the next candidate 2 matches in
  12 bytes.
\<close>

definition st_low :: deflate_state where
  "st_low = test_state
     [9, 9, 1, 2, 3, 4, 5, 6, 7, 8, 9, 10, 11, 12, 99, 0, 0, 0, 0, 0,
      1, 2, 3, 4, 77, 6, 7, 8, 9, 0, 0, 0, 0, 0, 0, 0, 0, 0, 0, 0,
      1, 2, 3, 4, 5, 6, 7, 8, 9, 10, 11, 12] ((\<lambda>_. 0)(20 := 2))
     40 8 12 128 32 128 1"

text \<open>
  A chain entry that agrees with the current string in the bytes 0 and 1 but not in
  byte 2, with \<open>prev_length = 1\<close>.
\<close>

definition st_hash :: deflate_state where
  "st_hash = test_state [9, 9, 1, 2, 77, 4, 5, 6, 1, 2, 3, 4, 5, 6, 7, 8] (\<lambda>_. 0)
     8 1 8 128 8 128 6"

text \<open>
  The strings at offset 2 and at the current position 8 agree in exactly three bytes, and
  the bytes before them are equal.
\<close>

definition st_min3 :: deflate_state where
  "st_min3 = test_state [0, 9, 1, 2, 3, 50, 0, 9, 1, 2, 3, 60, 0, 0, 0, 0] (\<lambda>_. 0)
     8 2 8 128 8 128 6"



text \<open>
  A chain array that does not lead backwards: the head 18, which matches the current
  string at 29 in five bytes, links to 29, the current position itself.
\<close>

definition st_self :: deflate_state where
  "st_self = test_state
     (replicate 18 0 @ [1, 2, 3, 4, 5, 60, 0, 0, 0, 0, 0, 1, 2, 3, 4, 5, 6, 7, 8])
     ((\<lambda>_. 0)(18 := 29))
     29 2 8 128 8 128 6"

subsection \<open>Notions used in the statements and proofs\<close>

text \<open>
  The \<open>IN assertions\<close> of the header comment: \<open>cur_match\<close> is an earlier position
  at a distance of at most \<open>MAX_DIST\<close>, and \<open>prev_length >= 1\<close>.
\<close>

definition in_assertions :: "deflate_state \<Rightarrow> 32 word \<Rightarrow> bool" where
  "in_assertions s cur_match \<longleftrightarrow>
     cur_match < strstart s \<and> strstart s - cur_match \<le> max_dist s \<and> 1 \<le> prev_length s"

text \<open>
  A pass over a candidate either leaves the state and the locals as they are (the probe
  does not improve), or it stores the candidate in \<open>match_start\<close> and the length of
  the probe in \<open>best_len\<close>.
\<close>

definition upd1 :: "32 word \<Rightarrow> deflate_state \<times> locals1 \<Rightarrow> deflate_state \<times> locals1 \<Rightarrow> bool" where
  "upd1 cm r r' \<longleftrightarrow>
     (\<not> improves (probe1 r cm) \<and> r' = r) \<or>
     (improves (probe1 r cm) \<and> fst r' = (fst r)\<lparr>match_start := cm\<rparr> \<and>
      p_len (probe1 r cm) = Some (best_len (snd r')))"

definition upd2 :: "32 word \<Rightarrow> deflate_state \<times> locals2 \<Rightarrow> deflate_state \<times> locals2 \<Rightarrow> bool" where
  "upd2 cm r r' \<longleftrightarrow>
     (\<not> improves (probe2 r cm) \<and> r' = r) \<or>
     (improves (probe2 r cm) \<and> fst r' = (fst r)\<lparr>match_start := cm\<rparr> \<and>
      p_len (probe2 r cm) = Some (best_len2 (snd r')))"

text \<open>
  The comparator of the specification: the number of leading equal bytes of the strings
  at \<open>a\<close> and \<open>b\<close>, among the first \<open>n\<close>, found by a byte-by-byte scan.
\<close>

fun lcp :: "(int \<Rightarrow> 8 word) \<Rightarrow> int \<Rightarrow> int \<Rightarrow> nat \<Rightarrow> nat" where
  "lcp w a b 0 = 0"
| "lcp w a b (Suc n) = (if w a = w b then Suc (lcp w (a + 1) (b + 1) n) else 0)"

text \<open>
  The condition under which std1 may skip the comparison of byte 2 (the source relies on
  equal hash keys and \<open>HASH_BITS >= 8\<close> for it): every candidate that the walk examines
  and that agrees with the current string in the bytes 0 and 1 agrees in byte 2.
\<close>

definition byte3 :: "deflate_state \<Rightarrow> 32 word \<Rightarrow> bool" where
  "byte3 s c \<longleftrightarrow>
     (window s (uint c) = window s (uint (strstart s)) \<and>
      window s (uint c + 1) = window s (uint (strstart s) + 1) \<longrightarrow>
      window s (uint c + 2) = window s (uint (strstart s) + 2))"

definition third_byte_ok :: "32 word \<Rightarrow> deflate_state \<Rightarrow> 32 word \<Rightarrow> bool" where
  "third_byte_ok TL s cur_match = (\<forall>e\<in>set (probes1 TL s cur_match). byte3 s (p_cand e))"

text \<open>The locals of std1 and std2 hold the same values.\<close>

definition rel12 :: "deflate_state \<times> locals1 \<Rightarrow> deflate_state \<times> locals2 \<Rightarrow> bool" where
  "rel12 r1 r2 \<longleftrightarrow>
     fst r2 = fst r1 \<and> best_len2 (snd r2) = best_len (snd r1) \<and> best_len (snd r1) \<noteq> 0 \<and>
     scan_end2 (snd r2) = word_cat (scan_end (snd r1)) (scan_end1 (snd r1)) \<and>
     scan_start2 (snd r2) = load16 (window (fst r1)) (uint (strstart (fst r1)))"

section \<open>Lemmas\<close>

subsection \<open>The comparator of std1\<close>

lemma scan_loop1_bounds:
  "scan < strend \<Longrightarrow> (strend - scan) mod 8 = 0 \<Longrightarrow>
   scan < scan_loop1 w strend scan match \<and> scan_loop1 w strend scan match \<le> strend"
proof (induction w strend scan match rule: scan_loop1.induct)
  case (1 w strend scan match)
  from "1.prems" have le: "scan + 8 \<le> strend" by presburger
  have m: "(strend - (scan + 8)) mod 8 = 0" using "1.prems" by presburger
  show ?case
  proof (cases "scan + 8 < strend")
    case True
    with 1 m show ?thesis
      by (subst (1 2) scan_loop1.simps) (auto simp: )
  next
    case False
    with le show ?thesis
      by (subst (1 2) scan_loop1.simps) auto
  qed
qed

lemma match_len1_uint:
  "uint (match_len1 s cm) =
     scan_loop1 (window s) (uint (strstart s) + 258) (uint (strstart s) + 2) (uint cm + 2)
       - uint (strstart s)"
proof -
  define d where "d = scan_loop1 (window s) (uint (strstart s) + 258) (uint (strstart s) + 2)
    (uint cm + 2) - uint (strstart s)"
  have "uint (strstart s) + 2 < scan_loop1 (window s) (uint (strstart s) + 258)
      (uint (strstart s) + 2) (uint cm + 2) \<and>
    scan_loop1 (window s) (uint (strstart s) + 258) (uint (strstart s) + 2) (uint cm + 2)
      \<le> uint (strstart s) + 258"
    by (rule scan_loop1_bounds) simp_all
  then have b: "0 \<le> d" "d < 2 ^ 32" by (simp_all add: d_def)
  have "match_len1 s cm = word_of_int d"
    by (simp add: match_len1_def MAX_MATCH_def d_def)
  then have "uint (match_len1 s cm) = take_bit 32 d"
    by (simp only: uint_word_of_int_eq) simp
  also have "\<dots> = d" using b by (simp add: take_bit_int_eq_self)
  finally show ?thesis by (simp add: d_def)
qed

lemma match_len1_bounds: "3 \<le> match_len1 s cm \<and> match_len1 s cm \<le> 258"
proof -
  let ?e = "scan_loop1 (window s) (uint (strstart s) + 258) (uint (strstart s) + 2) (uint cm + 2)"
  have b: "uint (strstart s) + 2 < ?e \<and> ?e \<le> uint (strstart s) + 258"
    by (rule scan_loop1_bounds) simp_all
  then show ?thesis
    by (simp add: word_le_def match_len1_uint)
qed

subsection \<open>An induction rule for the walk of std1\<close>

lemma body1_Break:
  assumes "body1 TL nice cm r = Break r'" "\<not> strstart (fst r) \<le> cm"
  shows "upd1 cm r r'"
  using assms unfolding body1_def upd1_def improves_def probe1_def
  by (auto split: if_splits)

lemma body1_Continue:
  assumes "body1 TL nice cm r = Continue r'"
  shows "upd1 cm r r' \<and> \<not> strstart (fst r) \<le> cm \<and> \<not> accepts nice (probe1 r cm) \<and>
    \<not> gives_up TL (fst r) (probe1 r cm)"
  using assms unfolding body1_def upd1_def improves_def probe1_def accepts_def gives_up_def
  by (auto split: if_splits)

lemma walk1_guard: "strstart (fst r) \<le> cm \<Longrightarrow> walk1 TL nice wmask limit cm cl r = r"
  by (simp add: walk1.simps body1_def)

lemma trace1_guard: "strstart (fst r) \<le> cm \<Longrightarrow> trace1 TL nice wmask limit cm cl r = []"
  by (simp add: trace1.simps)

lemma walk1_induct2 [case_names guard stop go]:
  assumes guard: "\<And>cm cl r. strstart (fst r) \<le> cm \<Longrightarrow> P cm cl r"
    and stop: "\<And>cm cl r r'. \<not> strstart (fst r) \<le> cm \<Longrightarrow>
        walk1 TL nice wmask limit cm cl r = r' \<Longrightarrow>
        trace1 TL nice wmask limit cm cl r = [probe1 r cm] \<Longrightarrow>
        upd1 cm r r' \<Longrightarrow> P cm cl r"
    and go: "\<And>cm cl r r' p. \<not> strstart (fst r) \<le> cm \<Longrightarrow>
        walk1 TL nice wmask limit cm cl r = walk1 TL nice wmask limit (fst p) (snd p) r' \<Longrightarrow>
        trace1 TL nice wmask limit cm cl r =
          probe1 r cm # trace1 TL nice wmask limit (fst p) (snd p) r' \<Longrightarrow>
        upd1 cm r r' \<Longrightarrow> next_link (fst r') wmask limit cm cl = Some p \<Longrightarrow>
        \<not> accepts nice (probe1 r cm) \<Longrightarrow> \<not> gives_up TL (fst r) (probe1 r cm) \<Longrightarrow>
        P (fst p) (snd p) r' \<Longrightarrow> P cm cl r"
  shows "P cm cl r"
  using guard stop go
proof (induction TL nice wmask limit cm cl r rule: walk1.induct)
  case (1 TL nice wmask limit cm cl r)
  note guard = "1.prems"(1) and stop = "1.prems"(2) and go = "1.prems"(3)
  show ?case
  proof (cases "strstart (fst r) \<le> cm")
    case True
    then show ?thesis by (rule guard)
  next
    case ng: False
    show ?thesis
    proof (cases "body1 TL nice cm r")
      case (Break r')
      show ?thesis
      proof (rule stop [OF ng, of _ r'])
        show "walk1 TL nice wmask limit cm cl r = r'"
          using Break by (simp add: walk1.simps)
        show "trace1 TL nice wmask limit cm cl r = [probe1 r cm]"
          using Break ng by (simp add: trace1.simps)
        show "upd1 cm r r'" using Break ng by (rule body1_Break)
      qed
    next
      case (Continue r')
      note c = body1_Continue [OF Continue]
      show ?thesis
      proof (cases "next_link (fst r') wmask limit cm cl")
        case None
        show ?thesis
        proof (rule stop [OF ng, of _ r'])
          show "walk1 TL nice wmask limit cm cl r = r'"
            using Continue None by (simp add: walk1.simps)
          show "trace1 TL nice wmask limit cm cl r = [probe1 r cm]"
            using Continue None ng by (simp add: trace1.simps)
          show "upd1 cm r r'" using c by simp
        qed
      next
        case (Some p)
        show ?thesis
        proof (rule go [OF ng, of _ p r'])
          show "walk1 TL nice wmask limit cm cl r = walk1 TL nice wmask limit (fst p) (snd p) r'"
            using Continue Some by (simp add: walk1.simps)
          show "trace1 TL nice wmask limit cm cl r =
              probe1 r cm # trace1 TL nice wmask limit (fst p) (snd p) r'"
            using Continue Some ng by (simp add: trace1.simps)
          show "upd1 cm r r'" using c by simp
          show "next_link (fst r') wmask limit cm cl = Some p" by (rule Some)
          show "\<not> accepts nice (probe1 r cm)" using c by simp
          show "\<not> gives_up TL (fst r) (probe1 r cm)" using c by simp
          show "P (fst p) (snd p) r'" using "1.IH" [OF Continue Some guard stop go] .
        qed
      qed
    qed
  qed
qed

lemma next_link_Some:
  "next_link s wmask limit cm cl = Some p \<Longrightarrow> limit < fst p \<and> snd p = cl - 1 \<and> cl - 1 \<noteq> 0"
  by (auto simp: next_link_def split: if_splits)

lemma probe1_simps [simp]:
  "p_cand (probe1 r cm) = cm" "p_best (probe1 r cm) = best_len (snd r)"
  by (simp_all add: probe1_def)

lemma probe1_len_bounds: "p_len (probe1 r cm) = Some len \<Longrightarrow> 3 \<le> len \<and> len \<le> 258"
  using match_len1_bounds [of "fst r" cm] by (auto simp: probe1_def split: if_splits)

lemma frame_fields:
  fixes s s' :: deflate_state
  assumes "s'\<lparr>match_start := 0\<rparr> = s\<lparr>match_start := 0\<rparr>"
  shows "window s' = window s" "prev s' = prev s" "w_mask s' = w_mask s"
    "strstart s' = strstart s" "prev_length s' = prev_length s" "lookahead s' = lookahead s"
    "max_chain_length s' = max_chain_length s" "good_match s' = good_match s"
    "nice_match s' = nice_match s" "level s' = level s" "max_dist s' = max_dist s"
    "s' = s\<lparr>match_start := match_start s'\<rparr>"
proof -
  have e: "f (s'\<lparr>match_start := 0\<rparr>) = f (s\<lparr>match_start := 0\<rparr>)" for f :: "deflate_state \<Rightarrow> 'x"
    using assms by simp
  show "window s' = window s" using e [of window] by simp
  show "prev s' = prev s" using e [of prev] by simp
  show "w_mask s' = w_mask s" using e [of w_mask] by simp
  show "strstart s' = strstart s" using e [of strstart] by simp
  show "prev_length s' = prev_length s" using e [of prev_length] by simp
  show "lookahead s' = lookahead s" using e [of lookahead] by simp
  show "max_chain_length s' = max_chain_length s" using e [of max_chain_length] by simp
  show "good_match s' = good_match s" using e [of good_match] by simp
  show "nice_match s' = nice_match s" using e [of nice_match] by simp
  show "level s' = level s" using e [of level] by simp
  show "max_dist s' = max_dist s" using e [of max_dist] by simp
  then show "s' = s\<lparr>match_start := match_start s'\<rparr>"
    using \<open>window s' = window s\<close> \<open>prev s' = prev s\<close> \<open>w_mask s' = w_mask s\<close>
      \<open>strstart s' = strstart s\<close> \<open>prev_length s' = prev_length s\<close>
      \<open>lookahead s' = lookahead s\<close> \<open>max_chain_length s' = max_chain_length s\<close>
      \<open>good_match s' = good_match s\<close> \<open>nice_match s' = nice_match s\<close>
      \<open>level s' = level s\<close> \<open>max_dist s' = max_dist s\<close>
    by (intro deflate_state.equality) simp_all
qed

lemma upd1_frame: "upd1 cm r r' \<Longrightarrow> (fst r')\<lparr>match_start := 0\<rparr> = (fst r)\<lparr>match_start := 0\<rparr>"
  by (auto simp: upd1_def)

lemma upd1_best: "upd1 cm r r' \<Longrightarrow> best_len (snd r) \<le> best_len (snd r')"
  by (auto simp: upd1_def improves_def split: option.splits)

lemma walk1_frame0:
  "(fst (walk1 TL nice wmask limit cm cl r))\<lparr>match_start := 0\<rparr> = (fst r)\<lparr>match_start := 0\<rparr>"
proof (induction cm cl r rule: walk1_induct2 [where TL = TL and nice = nice and wmask = wmask and limit = limit])
  case (guard cm cl r)
  then show ?case by (simp add: walk1_guard)
next
  case (stop cm cl r r')
  then show ?case using upd1_frame [of cm r r'] by simp
next
  case (go cm cl r r' p)
  then show ?case using upd1_frame [of cm r r'] by simp
qed

subsection \<open>Invariants of the walk of std1\<close>

lemma trace1_Nil: "trace1 TL nice wmask limit cm cl r = [] \<longleftrightarrow> strstart (fst r) \<le> cm"
  by (simp add: trace1.simps)

lemma walk1_result:
  "(\<not> (\<exists>e\<in>set (trace1 TL nice wmask limit cm cl r). improves e) \<and>
      walk1 TL nice wmask limit cm cl r = r) \<or>
   ((\<exists>e\<in>set (trace1 TL nice wmask limit cm cl r). improves e) \<and>
      best_len (snd r) < best_len (snd (walk1 TL nice wmask limit cm cl r)) \<and>
      (\<exists>e. find (\<lambda>e. p_len e = Some (best_len (snd (walk1 TL nice wmask limit cm cl r))))
             (trace1 TL nice wmask limit cm cl r) = Some e \<and>
           p_cand e = match_start (fst (walk1 TL nice wmask limit cm cl r))))"
proof (induction cm cl r rule: walk1_induct2 [where TL = TL and nice = nice and wmask = wmask and limit = limit])
  case (guard cm cl r)
  then show ?case by (simp add: walk1_guard trace1_guard)
next
  case (stop cm cl r r')
  show ?case
  proof (cases "improves (probe1 r cm)")
    case True
    with stop show ?thesis
      by (auto simp: upd1_def improves_def split: option.splits)
  next
    case False
    with stop show ?thesis by (simp add: upd1_def)
  qed
next
  case (go cm cl r r' p)
  let ?w = "walk1 TL nice wmask limit (fst p) (snd p) r'"
  let ?t = "trace1 TL nice wmask limit (fst p) (snd p) r'"
  show ?case
  proof (cases "improves (probe1 r cm)")
    case True
    with go have u: "fst r' = (fst r)\<lparr>match_start := cm\<rparr>"
        "p_len (probe1 r cm) = Some (best_len (snd r'))" "best_len (snd r) < best_len (snd r')"
      by (auto simp: upd1_def improves_def split: option.splits)
    from go.IH show ?thesis
    proof
      assume a: "\<not> (\<exists>e\<in>set ?t. improves e) \<and> ?w = r'"
      with True u go.hyps(2,3) show ?thesis by simp
    next
      assume a: "(\<exists>e\<in>set ?t. improves e) \<and> best_len (snd r') < best_len (snd ?w) \<and>
        (\<exists>e. find (\<lambda>e. p_len e = Some (best_len (snd ?w))) ?t = Some e \<and>
           p_cand e = match_start (fst ?w))"
      then have "best_len (snd r) < best_len (snd ?w)" using u(3) by (auto intro: less_trans)
      moreover have "p_len (probe1 r cm) \<noteq> Some (best_len (snd ?w))" using a u(2) by auto
      ultimately show ?thesis using True a go.hyps(2,3) by simp
    qed
  next
    case False
    with go have u: "r' = r" by (simp add: upd1_def)
    from go.IH show ?thesis
    proof
      assume a: "\<not> (\<exists>e\<in>set ?t. improves e) \<and> ?w = r'"
      with False u go.hyps(2,3) show ?thesis by simp
    next
      assume a: "(\<exists>e\<in>set ?t. improves e) \<and> best_len (snd r') < best_len (snd ?w) \<and>
        (\<exists>e. find (\<lambda>e. p_len e = Some (best_len (snd ?w))) ?t = Some e \<and>
           p_cand e = match_start (fst ?w))"
      have "p_len (probe1 r cm) \<noteq> Some (best_len (snd ?w))"
        using a u False by (auto simp: improves_def)
      then show ?thesis using a u go.hyps(2,3) by simp
    qed
  qed
qed

lemma trace1_probes:
  "\<forall>e\<in>set (trace1 TL nice wmask limit cm cl r).
     p_cand e < strstart (fst r) \<and> best_len (snd r) \<le> p_best e \<and>
     (\<forall>len. p_len e = Some len \<longrightarrow> 3 \<le> len \<and> len \<le> 258)"
proof (induction cm cl r rule: walk1_induct2 [where TL = TL and nice = nice and wmask = wmask and limit = limit])
  case (guard cm cl r)
  then show ?case by (simp add: trace1_guard)
next
  case (stop cm cl r r')
  then show ?case using probe1_len_bounds [of r cm] by auto
next
  case (go cm cl r r' p)
  have "strstart (fst r') = strstart (fst r)"
    using go.hyps(4) by (intro frame_fields(4) upd1_frame)
  moreover have "best_len (snd r) \<le> best_len (snd r')" using go.hyps(4) by (rule upd1_best)
  ultimately show ?case using go.IH go.hyps(1,3) probe1_len_bounds [of r cm] by auto
qed

lemma trace1_above_limit:
  "limit < cm \<Longrightarrow> \<forall>e\<in>set (trace1 TL nice wmask limit cm cl r). limit < p_cand e"
proof (induction cm cl r rule: walk1_induct2 [where TL = TL and nice = nice and wmask = wmask and limit = limit])
  case (guard cm cl r)
  then show ?case by (simp add: trace1_guard)
next
  case (stop cm cl r r')
  then show ?case by simp
next
  case (go cm cl r r' p)
  then show ?case using next_link_Some [OF go.hyps(5)] by simp
qed

lemma trace1_head_tail:
  "trace1 TL nice wmask limit cm cl r = [] \<or>
   (p_cand (hd (trace1 TL nice wmask limit cm cl r)) = cm \<and>
    (\<forall>e\<in>set (tl (trace1 TL nice wmask limit cm cl r)). limit < p_cand e))"
proof (induction cm cl r rule: walk1_induct2 [where TL = TL and nice = nice and wmask = wmask and limit = limit])
  case (guard cm cl r)
  then show ?case by (simp add: trace1_guard)
next
  case (stop cm cl r r')
  then show ?case by simp
next
  case (go cm cl r r' p)
  from next_link_Some [OF go.hyps(5)] have "limit < fst p" by simp
  then show ?case using go.hyps(3) trace1_above_limit [of limit "fst p" TL nice wmask "snd p" r']
    by simp
qed

lemma trace1_length: "length (trace1 TL nice wmask limit cm cl r) \<le> Suc (unat (cl - 1))"
proof (induction cm cl r rule: walk1_induct2 [where TL = TL and nice = nice and wmask = wmask and limit = limit])
  case (guard cm cl r)
  then show ?case by (simp add: trace1_guard)
next
  case (stop cm cl r r')
  then show ?case by simp
next
  case (go cm cl r r' p)
  from next_link_Some [OF go.hyps(5)] have "snd p = cl - 1" "cl - 1 \<noteq> 0" by simp_all
  then have "Suc (unat (snd p - 1)) = unat (cl - 1)"
    using unat_minus_one [of "cl - 1"] unat_eq_zero [of "cl - 1"] by simp
  then show ?case using go.IH go.hyps(3) by simp
qed

lemma trace1_stops:
  "\<forall>e\<in>set (butlast (trace1 TL nice wmask limit cm cl r)).
     \<not> accepts nice e \<and> \<not> gives_up TL (fst r) e"
proof (induction cm cl r rule: walk1_induct2 [where TL = TL and nice = nice and wmask = wmask and limit = limit])
  case (guard cm cl r)
  then show ?case by (simp add: trace1_guard)
next
  case (stop cm cl r r')
  then show ?case by simp
next
  case (go cm cl r r' p)
  have "level (fst r') = level (fst r)"
    using go.hyps(4) by (intro frame_fields(10) upd1_frame)
  then have "gives_up TL (fst r') e = gives_up TL (fst r) e" for e
    by (simp add: gives_up_def split: option.splits)
  then show ?case using go.IH go.hyps(3,6,7) by simp
qed

lemma walk1_last:
  "trace1 TL nice wmask limit cm cl r \<noteq> [] \<Longrightarrow>
   improves (last (trace1 TL nice wmask limit cm cl r)) \<Longrightarrow>
   p_len (last (trace1 TL nice wmask limit cm cl r)) =
     Some (best_len (snd (walk1 TL nice wmask limit cm cl r))) \<and>
   match_start (fst (walk1 TL nice wmask limit cm cl r)) =
     p_cand (last (trace1 TL nice wmask limit cm cl r))"
proof (induction cm cl r rule: walk1_induct2 [where TL = TL and nice = nice and wmask = wmask and limit = limit])
  case (guard cm cl r)
  then show ?case by (simp add: trace1_guard)
next
  case (stop cm cl r r')
  then show ?case by (auto simp: upd1_def)
next
  case (go cm cl r r' p)
  show ?case
  proof (cases "trace1 TL nice wmask limit (fst p) (snd p) r' = []")
    case True
    then have "walk1 TL nice wmask limit (fst p) (snd p) r' = r'"
      by (simp add: trace1_Nil walk1_guard)
    with True go show ?thesis by (auto simp: upd1_def)
  next
    case False
    with go show ?thesis by simp
  qed
qed






subsection \<open>A whole call of std1\<close>

lemma start1 [simp]: "best_len (start_locals1 s) = start_len s"
  by (simp add: start_locals1_def)

lemma lm1_frame0:
  "(snd (longest_match1 TL s cm))\<lparr>match_start := 0\<rparr> = s\<lparr>match_start := 0\<rparr>"
  using walk1_frame0 [of TL "nice_eff s" "w_mask s" "dist_limit s" cm "chain_budget s"
      "(s, start_locals1 s)"]
  by (simp add: longest_match1_def finish1_def)

lemma lm1_fst:
  "fst (longest_match1 TL s cm) =
     (if best_found1 TL s cm \<le> lookahead s then best_found1 TL s cm else lookahead s)"
  using frame_fields(6) [OF lm1_frame0 [of TL s cm]]
  by (simp add: longest_match1_def finish1_def best_found1_def)

lemma lm1_match_start:
  "match_start (snd (longest_match1 TL s cm)) =
     match_start (fst (walk1 TL (nice_eff s) (w_mask s) (dist_limit s) cm (chain_budget s)
       (s, start_locals1 s)))"
  by (simp add: longest_match1_def finish1_def)

lemma lm1_result:
  "(\<not> (\<exists>e\<in>set (probes1 TL s cm). improves e) \<and>
      best_found1 TL s cm = start_len s \<and>
      match_start (snd (longest_match1 TL s cm)) = match_start s) \<or>
   ((\<exists>e\<in>set (probes1 TL s cm). improves e) \<and>
      start_len s < best_found1 TL s cm \<and>
      (\<exists>e. find (\<lambda>e. p_len e = Some (best_found1 TL s cm)) (probes1 TL s cm) = Some e \<and>
           p_cand e = match_start (snd (longest_match1 TL s cm))))"
  using walk1_result [of TL "nice_eff s" "w_mask s" "dist_limit s" cm "chain_budget s"
      "(s, start_locals1 s)"]
  unfolding probes1_def best_found1_def lm1_match_start
  by (elim disjE conjE) simp_all

lemma start_len_bounds: "prev_length s \<le> start_len s \<and> 1 \<le> start_len s"
  by (auto simp: start_len_def word_le_nat_alt unat_gt_0 [symmetric] unat_eq_zero)

lemma best_found1_lower: "start_len s \<le> best_found1 TL s cm"
  using lm1_result [of TL s cm] by auto

lemma probes1_facts:
  "e \<in> set (probes1 TL s cm) \<Longrightarrow>
     p_cand e < strstart s \<and> start_len s \<le> p_best e \<and>
     (\<forall>len. p_len e = Some len \<longrightarrow> 3 \<le> len \<and> len \<le> 258)"
  using trace1_probes [of TL "nice_eff s" "w_mask s" "dist_limit s" cm "chain_budget s"
      "(s, start_locals1 s)"]
  unfolding probes1_def by simp

lemma best_found1_upper: "prev_length s \<le> 258 \<Longrightarrow> best_found1 TL s cm \<le> 258"
proof -
  assume a: "prev_length s \<le> 258"
  from lm1_result [of TL s cm] show ?thesis
  proof (elim disjE conjE exE)
    assume "best_found1 TL s cm = start_len s"
    then show ?thesis using a by (simp add: start_len_def)
  next
    fix e
    assume "find (\<lambda>e. p_len e = Some (best_found1 TL s cm)) (probes1 TL s cm) = Some e"
    then have "e \<in> set (probes1 TL s cm)" "p_len e = Some (best_found1 TL s cm)"
      by (auto simp: find_Some_iff)
    then show ?thesis using probes1_facts [of e TL s cm] by simp
  qed
qed

lemma probes1_stops:
  assumes "i < length (probes1 TL s cm)"
    and "accepts (nice_eff s) (probes1 TL s cm ! i) \<or> gives_up TL s (probes1 TL s cm ! i)"
  shows "Suc i = length (probes1 TL s cm)"
proof (rule ccontr)
  assume "Suc i \<noteq> length (probes1 TL s cm)"
  with assms(1) have "i < length (butlast (probes1 TL s cm))" by simp
  then have "probes1 TL s cm ! i \<in> set (butlast (probes1 TL s cm))"
    by (metis nth_butlast nth_mem)
  then show False
    using trace1_stops [of TL "nice_eff s" "w_mask s" "dist_limit s" cm "chain_budget s"
      "(s, start_locals1 s)"] assms(2)
    unfolding probes1_def by auto
qed

lemma probes1_last:
  assumes "probes1 TL s cm \<noteq> []" "improves (last (probes1 TL s cm))"
  shows "p_len (last (probes1 TL s cm)) = Some (best_found1 TL s cm)"
    and "match_start (snd (longest_match1 TL s cm)) = p_cand (last (probes1 TL s cm))"
  using walk1_last [of TL "nice_eff s" "w_mask s" "dist_limit s" cm "chain_budget s"
      "(s, start_locals1 s)"] assms
  unfolding probes1_def best_found1_def lm1_match_start by simp_all

lemma dist_limit_cases:
  "(max_dist s < strstart s \<and> uint (dist_limit s) = uint (strstart s) - uint (max_dist s)) \<or>
   (strstart s \<le> max_dist s \<and> uint (dist_limit s) = 0)"
  by (auto simp: dist_limit_def uint_sub_if' word_less_def word_le_def)

lemma uint_distance: "c < strstart s \<Longrightarrow> uint (strstart s - c) = uint (strstart s) - uint c"
  by (simp add: uint_sub_if' word_less_def)

lemma within_dist:
  assumes "dist_limit s < c" "c < strstart s"
  shows "strstart s - c < max_dist s"
proof -
  have "uint (dist_limit s) < uint c" "uint c < uint (strstart s)"
    using assms by (simp_all add: word_less_def)
  moreover have "0 \<le> uint (max_dist s)" by simp
  ultimately have "uint (strstart s) - uint c < uint (max_dist s)"
    using dist_limit_cases [of s] unfolding word_less_def word_le_def by linarith
  then show ?thesis using uint_distance [OF assms(2)] by (simp add: word_less_def)
qed

lemma within_dist_le:
  assumes "dist_limit s \<le> c" "c < strstart s"
  shows "strstart s - c \<le> max_dist s"
proof -
  have "uint (dist_limit s) \<le> uint c" "uint c < uint (strstart s)"
    using assms by (simp_all add: word_less_def word_le_def)
  moreover have "0 \<le> uint c" by simp
  ultimately have "uint (strstart s) - uint c \<le> uint (max_dist s)"
    using dist_limit_cases [of s] unfolding word_less_def word_le_def by linarith
  then show ?thesis using uint_distance [OF assms(2)] by (simp add: word_le_def)
qed

lemma head_in_range:
  assumes "cm < strstart s" "strstart s - cm \<le> max_dist s"
  shows "dist_limit s \<le> cm"
proof -
  have "uint (strstart s) - uint cm \<le> uint (max_dist s)"
    using assms(2) uint_distance [OF assms(1)] by (simp add: word_le_def)
  moreover have "0 \<le> uint cm" by simp
  ultimately have "uint (dist_limit s) \<le> uint cm"
    using dist_limit_cases [of s] by linarith
  then show ?thesis by (simp add: word_le_def)
qed

lemma probes1_head_tail:
  "(probes1 TL s cm = [] \<longleftrightarrow> strstart s \<le> cm) \<and>
   (probes1 TL s cm \<noteq> [] \<longrightarrow> p_cand (hd (probes1 TL s cm)) = cm) \<and>
   (\<forall>e\<in>set (tl (probes1 TL s cm)). dist_limit s < p_cand e)"
  using trace1_head_tail [of TL "nice_eff s" "w_mask s" "dist_limit s" cm "chain_budget s"
      "(s, start_locals1 s)"]
    trace1_Nil [of TL "nice_eff s" "w_mask s" "dist_limit s" cm "chain_budget s"
      "(s, start_locals1 s)"]
  unfolding probes1_def by auto

lemma probes1_length: "length (probes1 TL s cm) \<le> Suc (unat (chain_budget s - 1))"
  unfolding probes1_def by (rule trace1_length)

lemma probes1_range:
  assumes "e \<in> set (probes1 TL s cm)" "cm < strstart s" "strstart s - cm \<le> max_dist s"
  shows "dist_limit s \<le> p_cand e \<and> strstart s - p_cand e \<le> max_dist s"
proof -
  from assms(1) have ne: "probes1 TL s cm \<noteq> []" by auto
  with assms(1) have "e = hd (probes1 TL s cm) \<or> e \<in> set (tl (probes1 TL s cm))"
    by (cases "probes1 TL s cm") auto
  then have l: "dist_limit s \<le> p_cand e"
  proof
    assume "e = hd (probes1 TL s cm)"
    then have "p_cand e = cm" using probes1_head_tail [of TL s cm] ne by simp
    then show ?thesis using head_in_range [OF assms(2,3)] by simp
  next
    assume "e \<in> set (tl (probes1 TL s cm))"
    then show ?thesis using probes1_head_tail [of TL s cm] by auto
  qed
  moreover have "p_cand e < strstart s" using probes1_facts [OF assms(1)] by simp
  ultimately show ?thesis using within_dist_le [of s "p_cand e"] by simp
qed



subsection \<open>The comparators of std1 and std2 against the byte-by-byte scan\<close>

lemma load16_eq: "load16 w p = load16 w q \<longleftrightarrow> w p = w q \<and> w (p + 1) = w (q + 1)"
proof
  assume "load16 w p = load16 w q"
  then have "(word_split (word_cat (w (p + 1)) (w p) :: 16 word) :: 8 word \<times> 8 word) =
      word_split (word_cat (w (q + 1)) (w q) :: 16 word)"
    by (simp add: load16_def)
  then show "w p = w q \<and> w (p + 1) = w (q + 1)"
    by (simp add: word_split_cat_alt [OF refl] word_size)
qed (simp add: load16_def)

lemma lcp_le: "lcp w a b n \<le> n"
  by (induction n arbitrary: a b) auto

lemma lcp_add:
  "lcp w a b (n + k) =
     (if lcp w a b n = n then n + lcp w (a + int n) (b + int n) k else lcp w a b n)"
proof (induction n arbitrary: a b)
  case 0
  then show ?case by simp
next
  case (Suc n)
  show ?case using Suc [of "a + 1" "b + 1"] by (simp add: add.assoc)
qed

lemma lcp8:
  "lcp w a b 8 =
    (if w a \<noteq> w b then 0
     else if w (a + 1) \<noteq> w (b + 1) then 1
     else if w (a + 2) \<noteq> w (b + 2) then 2
     else if w (a + 3) \<noteq> w (b + 3) then 3
     else if w (a + 4) \<noteq> w (b + 4) then 4
     else if w (a + 5) \<noteq> w (b + 5) then 5
     else if w (a + 6) \<noteq> w (b + 6) then 6
     else if w (a + 7) \<noteq> w (b + 7) then 7 else 8)"
  by (simp add: eval_nat_numeral add.assoc)

lemma lcp7:
  "lcp w a b 7 =
    (if w a \<noteq> w b then 0
     else if w (a + 1) \<noteq> w (b + 1) then 1
     else if w (a + 2) \<noteq> w (b + 2) then 2
     else if w (a + 3) \<noteq> w (b + 3) then 3
     else if w (a + 4) \<noteq> w (b + 4) then 4
     else if w (a + 5) \<noteq> w (b + 5) then 5
     else if w (a + 6) \<noteq> w (b + 6) then 6 else 7)"
  by (simp add: eval_nat_numeral add.assoc)

lemma scan_loop1_lcp:
  "scan_loop1 w (scan + 8 * int (Suc m)) scan match =
     scan + 1 + int (lcp w (scan + 1) (match + 1) (8 * m + 7))"
proof (induction m arbitrary: scan match)
  case 0
  show ?case
    by (subst scan_loop1.simps) (simp add: lcp7 add.assoc)
next
  case (Suc m)
  define n where "n = 8 * m + 7"
  define E where "E = scan + 8 + 8 * int (Suc m)"
  have IH: "scan_loop1 w E (scan + 8) (match + 8) =
      scan + 9 + int (lcp w (scan + 9) (match + 9) n)"
    using Suc [of "scan + 8" "match + 8"] by (simp add: n_def E_def add.assoc)
  have g: "scan + 8 < E" by (simp add: E_def)
  have l: "lcp w (scan + 1) (match + 1) (8 + n) =
      (if lcp w (scan + 1) (match + 1) 8 = 8 then 8 + lcp w (scan + 9) (match + 9) n
       else lcp w (scan + 1) (match + 1) 8)"
    using lcp_add [of w "scan + 1" "match + 1" 8 n] by (simp add: add.assoc)
  have u: "scan_loop1 w E scan match = scan + 1 + int (lcp w (scan + 1) (match + 1) (8 + n))"
    unfolding l by (subst scan_loop1.simps) (simp add: lcp8 add.assoc g IH)
  have e: "8 * Suc m + 7 = 8 + n" by (simp add: n_def)
  have i: "scan + 8 * int (Suc (Suc m)) = E" by (simp add: E_def)
  show ?case unfolding e i by (rule u)
qed

lemma scan_loop2_lcp:
  "fst (scan_loop2 w (scan + 8 * int (Suc m)) scan match) =
     scan + 2 * int (lcp w scan match (8 * Suc m) div 2) \<and>
   snd (scan_loop2 w (scan + 8 * int (Suc m)) scan match) =
     match + 2 * int (lcp w scan match (8 * Suc m) div 2)"
proof (induction m arbitrary: scan match)
  case 0
  show ?case
    by (subst (1 2) scan_loop2.simps) (simp add: lcp8 load16_eq add.assoc)
next
  case (Suc m)
  define n where "n = 8 * Suc m"
  define E where "E = scan + 8 + 8 * int (Suc m)"
  have IH: "fst (scan_loop2 w E (scan + 8) (match + 8)) =
      scan + 8 + 2 * int (lcp w (scan + 8) (match + 8) n div 2) \<and>
    snd (scan_loop2 w E (scan + 8) (match + 8)) =
      match + 8 + 2 * int (lcp w (scan + 8) (match + 8) n div 2)"
    using Suc [of "scan + 8" "match + 8"] by (simp add: n_def E_def add.assoc)
  have g: "scan + 8 < E" by (simp add: E_def)
  have d: "(8 + k) div 2 = 4 + k div 2" for k :: nat by simp
  have l: "lcp w scan match (8 + n) =
      (if lcp w scan match 8 = 8 then 8 + lcp w (scan + 8) (match + 8) n
       else lcp w scan match 8)"
    using lcp_add [of w scan match 8 n] by simp
  have u: "fst (scan_loop2 w E scan match) = scan + 2 * int (lcp w scan match (8 + n) div 2) \<and>
      snd (scan_loop2 w E scan match) = match + 2 * int (lcp w scan match (8 + n) div 2)"
    unfolding l by (subst (1 2) scan_loop2.simps) (simp add: lcp8 load16_eq add.assoc g IH d)
  have e: "8 * Suc (Suc m) = 8 + n" by (simp add: n_def)
  have i: "scan + 8 * int (Suc (Suc m)) = E" by (simp add: E_def)
  show ?case unfolding e i by (rule u)
qed

lemma lcp_nth: "k < lcp w a b n \<Longrightarrow> w (a + int k) = w (b + int k)"
proof (induction n arbitrary: a b k)
  case 0
  then show ?case by simp
next
  case (Suc n)
  show ?case
  proof (cases k)
    case 0
    with Suc.prems show ?thesis by (simp split: if_splits)
  next
    case (Suc j)
    with Suc.prems Suc.IH [of j "a + 1" "b + 1"] show ?thesis
      by (simp add: add.assoc split: if_splits)
  qed
qed

lemma lcp_stop: "lcp w a b n < n \<Longrightarrow> w (a + int (lcp w a b n)) \<noteq> w (b + int (lcp w a b n))"
proof (induction n arbitrary: a b)
  case 0
  then show ?case by simp
next
  case (Suc n)
  then show ?case using Suc.IH [of "a + 1" "b + 1"]
    by (auto simp: add.assoc split: if_splits)
qed

lemma cat8_eq:
  "(word_cat (a :: 8 word) (b :: 8 word) :: 16 word) = word_cat c d \<longleftrightarrow> a = c \<and> b = d"
proof
  assume "(word_cat a b :: 16 word) = word_cat c d"
  then have "(word_split (word_cat a b :: 16 word) :: 8 word \<times> 8 word) =
      word_split (word_cat c d :: 16 word)"
    by simp
  then show "a = c \<and> b = d"
    by (simp add: word_split_cat_alt [OF refl] word_size)
qed simp

lemma scan2_bump_lcp:
  "(if w (fst (scan_loop2 w (a + 256) a b)) = w (snd (scan_loop2 w (a + 256) a b))
    then fst (scan_loop2 w (a + 256) a b) + 1 else fst (scan_loop2 w (a + 256) a b)) =
   a + int (lcp w a b 257)"
proof -
  define L where "L = lcp w a b 256"
  have L256: "L \<le> 256" unfolding L_def by (rule lcp_le)
  have sl: "fst (scan_loop2 w (a + 256) a b) = a + 2 * int (L div 2)"
      "snd (scan_loop2 w (a + 256) a b) = b + 2 * int (L div 2)"
    using scan_loop2_lcp [of w a 31 b] by (simp_all add: L_def)
  have L': "lcp w a b 257 = (if L = 256 then 256 + lcp w (a + 256) (b + 256) 1 else L)"
    using lcp_add [of w a b 256 1] by (simp add: L_def)
  show ?thesis
  proof (cases "L = 256")
    case True
    then show ?thesis unfolding sl by (simp add: L')
  next
    case False
    with L256 have lt: "L < 256" by simp
    then have ne: "w (a + int L) \<noteq> w (b + int L)"
      using lcp_stop [of w a b 256] by (simp add: L_def)
    show ?thesis
    proof (cases "even L")
      case True
      then have "2 * int (L div 2) = int L" by auto
      with ne False show ?thesis unfolding sl by (simp add: L')
    next
      case odd: False
      then have e: "2 * int (L div 2) + 1 = int L" by presburger
      have "L div 2 * 2 < L" using odd by presburger
      then have "w (a + int (L div 2 * 2)) = w (b + int (L div 2 * 2))"
        unfolding L_def by (rule lcp_nth)
      then have "w (a + 2 * int (L div 2)) = w (b + 2 * int (L div 2))"
        by (simp add: mult.commute)
      with e False show ?thesis unfolding sl by (simp add: L' add.assoc)
    qed
  qed
qed

lemma match_len2_lcp:
  "uint (match_len2 s cm) = 1 + int (lcp (window s) (uint (strstart s) + 1) (uint cm + 1) 257)"
proof -
  define d where "d = 1 + int (lcp (window s) (uint (strstart s) + 1) (uint cm + 1) 257)"
  have "lcp (window s) (uint (strstart s) + 1) (uint cm + 1) 257 \<le> 257" by (rule lcp_le)
  then have b: "0 \<le> d" "d < 2 ^ 32" by (simp_all add: d_def)
  have strend: "uint (strstart s) + MAX_MATCH - 1 = uint (strstart s) + 1 + 256"
    by (simp add: MAX_MATCH_def)
  have "match_len2 s cm = word_of_int ((MAX_MATCH - 1) - (uint (strstart s) + 1 + 256 -
      (uint (strstart s) + 1 +
        int (lcp (window s) (uint (strstart s) + 1) (uint cm + 1) 257))))"
    unfolding match_len2_def Let_def strend scan2_bump_lcp ..
  also have "\<dots> = word_of_int d" by (simp add: d_def MAX_MATCH_def)
  finally have "uint (match_len2 s cm) = take_bit 32 d"
    by (simp only: uint_word_of_int_eq) simp
  also have "\<dots> = d" using b by (simp add: take_bit_int_eq_self)
  finally show ?thesis by (simp add: d_def)
qed

lemma match_len1_lcp:
  "uint (match_len1 s cm) = 3 + int (lcp (window s) (uint (strstart s) + 3) (uint cm + 3) 255)"
  using scan_loop1_lcp [of "window s" "uint (strstart s) + 2" 31 "uint cm + 2"]
  by (simp add: match_len1_uint add.assoc)

lemma match_len12:
  assumes "window s (uint cm + 1) = window s (uint (strstart s) + 1)"
    and "window s (uint cm + 2) = window s (uint (strstart s) + 2)"
  shows "match_len2 s cm = match_len1 s cm"
proof -
  have "lcp (window s) (uint (strstart s) + 1) (uint cm + 1) (2 + 255) =
      2 + lcp (window s) (uint (strstart s) + 3) (uint cm + 3) 255"
    unfolding lcp_add using assms by (simp add: eval_nat_numeral add.assoc)
  then have "uint (match_len2 s cm) = uint (match_len1 s cm)"
    by (simp add: match_len1_lcp match_len2_lcp)
  then show ?thesis by (rule word_uint_eqI)
qed

subsection \<open>The walks of std1 and std2\<close>

lemma next_link2_eq: "next_link2 s wmask limit cm cl = next_link s wmask limit cm cl"
  by (simp add: next_link2_def next_link_def)

lemma uint_pred: "(x :: 32 word) \<noteq> 0 \<Longrightarrow> uint (x - 1) = uint x - 1"
proof -
  assume "x \<noteq> 0"
  then have "uint x \<noteq> 0" by (simp add: uint_0_iff)
  then have "uint 1 \<le> uint x" using uint_ge_0 [of x] unfolding uint_1 by linarith
  then show ?thesis by (simp add: uint_sub_if')
qed

lemma byte3_frame:
  "s'\<lparr>match_start := 0\<rparr> = s\<lparr>match_start := 0\<rparr> \<Longrightarrow> byte3 s' c = byte3 s c"
  using frame_fields(1,4) [of s' s] by (simp add: byte3_def)

lemma quick_reject12:
  assumes "rel12 r1 r2"
  shows "quick_reject2 (fst r2) (snd r2) cm = quick_reject1 (fst r1) (snd r1) cm"
proof -
  have "uint (best_len (snd r1) - 1) = uint (best_len (snd r1)) - 1"
    using assms by (intro uint_pred) (simp add: rel12_def)
  then show ?thesis
    using assms
    by (auto simp: rel12_def quick_reject1_def quick_reject2_def load16_eq cat8_eq
        load16_def [of _ "uint cm + uint (best_len (snd r1)) - 1"] add_diff_eq)
qed

lemma body12:
  assumes "rel12 r1 r2" "byte3 (fst r1) cm"
  shows "(case body1 TL nice cm r1 of
            Break r1' \<Rightarrow> (\<exists>r2'. body2 TL nice cm r2 = Break r2' \<and> rel12 r1' r2')
          | Continue r1' \<Rightarrow> (\<exists>r2'. body2 TL nice cm r2 = Continue r2' \<and> rel12 r1' r2'))"
proof (cases "strstart (fst r1) \<le> cm")
  case True
  with assms show ?thesis by (simp add: body1_def body2_def rel12_def)
next
  case ng: False
  show ?thesis
  proof (cases "quick_reject1 (fst r1) (snd r1) cm")
    case True
    with ng assms quick_reject12 [OF assms(1), of cm] show ?thesis
      by (simp add: body1_def body2_def rel12_def)
  next
    case nr: False
    then have b: "window (fst r1) (uint cm) = window (fst r1) (uint (strstart (fst r1)))"
        "window (fst r1) (uint cm + 1) = window (fst r1) (uint (strstart (fst r1)) + 1)"
      by (simp_all add: quick_reject1_def)
    then have "window (fst r1) (uint cm + 2) = window (fst r1) (uint (strstart (fst r1)) + 2)"
      using assms(2) by (simp add: byte3_def)
    with b(2) have ml: "match_len2 (fst r1) cm = match_len1 (fst r1) cm"
      by (rule match_len12)
    have "3 \<le> match_len1 (fst r1) cm" using match_len1_bounds by simp
    then have nz: "match_len1 (fst r1) cm \<noteq> 0" by auto
    have up: "uint (match_len1 (fst r1) cm - 1) = uint (match_len1 (fst r1) cm) - 1"
      using nz by (rule uint_pred)
    have f: "fst r2 = fst r1" using assms(1) by (simp add: rel12_def)
    show ?thesis
      using nr ng assms(1) quick_reject12 [OF assms(1), of cm] nz
      by (simp add: body1_def body2_def rel12_def f ml up load16_def add_diff_eq)
  qed
qed

lemma walk12:
  "rel12 r1 r2 \<Longrightarrow>
   \<forall>e\<in>set (trace1 TL nice wmask limit cm cl r1). byte3 (fst r1) (p_cand e) \<Longrightarrow>
   rel12 (walk1 TL nice wmask limit cm cl r1) (walk2 TL nice wmask limit cm cl r2)"
proof (induction TL nice wmask limit cm cl r1 arbitrary: r2 rule: walk1.induct)
  case (1 TL nice wmask limit cm cl r1)
  show ?case
  proof (cases "strstart (fst r1) \<le> cm")
    case True
    with "1.prems"(1) show ?thesis
      by (simp add: walk1.simps walk2.simps body1_def body2_def rel12_def)
  next
    case ng: False
    then have h: "byte3 (fst r1) cm" using "1.prems"(2) by (simp add: trace1.simps)
    note b = body12 [OF "1.prems"(1) h, of TL nice]
    show ?thesis
    proof (cases "body1 TL nice cm r1")
      case (Break r1')
      with b obtain r2' where "body2 TL nice cm r2 = Break r2'" "rel12 r1' r2'" by auto
      with Break show ?thesis by (simp add: walk1.simps walk2.simps)
    next
      case (Continue r1')
      with b obtain r2' where c2: "body2 TL nice cm r2 = Continue r2'" and r: "rel12 r1' r2'"
        by auto
      then have f: "fst r2' = fst r1'" by (simp add: rel12_def)
      have fr: "(fst r1')\<lparr>match_start := 0\<rparr> = (fst r1)\<lparr>match_start := 0\<rparr>"
        using body1_Continue [OF Continue] by (intro upd1_frame [of cm]) simp
      show ?thesis
      proof (cases "next_link (fst r1') wmask limit cm cl")
        case None
        with Continue c2 r f show ?thesis
          by (simp add: walk1.simps walk2.simps next_link2_eq)
      next
        case (Some p)
        have "\<forall>e\<in>set (trace1 TL nice wmask limit (fst p) (snd p) r1'). byte3 (fst r1') (p_cand e)"
          using "1.prems"(2) ng Continue Some byte3_frame [OF fr]
          by (simp add: trace1.simps [of _ _ _ _ cm])
        with Continue c2 f Some "1.IH" [OF Continue Some r] show ?thesis
          by (simp add: walk1.simps [of _ _ _ _ cm] walk2.simps [of _ _ _ _ cm] next_link2_eq)
      qed
    qed
  qed
qed

subsection \<open>The walk of std2\<close>

lemma match_len2_bounds: "1 \<le> match_len2 s cm \<and> match_len2 s cm \<le> 258"
proof -
  have "lcp (window s) (uint (strstart s) + 1) (uint cm + 1) 257 \<le> 257" by (rule lcp_le)
  then show ?thesis by (simp add: word_le_def match_len2_lcp)
qed

lemma body2_best:
  assumes "best_len2 (snd r) \<le> 258"
  shows "case body2 TL nice cm r of
           Break r' \<Rightarrow> best_len2 (snd r') \<le> 258 \<and> lookahead (fst r') = lookahead (fst r)
         | Continue r' \<Rightarrow> best_len2 (snd r') \<le> 258 \<and> lookahead (fst r') = lookahead (fst r)"
  using assms match_len2_bounds [of "fst r" cm] by (simp add: body2_def)

lemma walk2_best:
  "best_len2 (snd r) \<le> 258 \<Longrightarrow>
   best_len2 (snd (walk2 TL nice wmask limit cm cl r)) \<le> 258 \<and>
   lookahead (fst (walk2 TL nice wmask limit cm cl r)) = lookahead (fst r)"
proof (induction TL nice wmask limit cm cl r rule: walk2.induct)
  case (1 TL nice wmask limit cm cl r)
  note b = body2_best [OF "1.prems", of TL nice cm]
  show ?case
  proof (cases "body2 TL nice cm r")
    case (Break r')
    with b show ?thesis by (simp add: walk2.simps)
  next
    case (Continue r')
    show ?thesis
    proof (cases "next_link2 (fst r') wmask limit cm cl")
      case None
      with b Continue show ?thesis by (simp add: walk2.simps)
    next
      case (Some p)
      with b Continue "1.IH" [OF Continue Some] show ?thesis
        by (simp add: walk2.simps [of _ _ _ _ cm])
    qed
  qed
qed

lemma walk2_lookahead:
  "lookahead (fst (walk2 TL nice wmask limit cm cl r)) = lookahead (fst r)"
proof (induction TL nice wmask limit cm cl r rule: walk2.induct)
  case (1 TL nice wmask limit cm cl r)
  have b: "case body2 TL nice cm r of
      Break r' \<Rightarrow> lookahead (fst r') = lookahead (fst r)
    | Continue r' \<Rightarrow> lookahead (fst r') = lookahead (fst r)"
    by (simp add: body2_def)
  show ?case
  proof (cases "body2 TL nice cm r")
    case (Break r')
    with b show ?thesis by (simp add: walk2.simps)
  next
    case (Continue r')
    show ?thesis
    proof (cases "next_link2 (fst r') wmask limit cm cl")
      case None
      with b Continue show ?thesis by (simp add: walk2.simps)
    next
      case (Some p)
      with b Continue "1.IH" [OF Continue Some] show ?thesis
        by (simp add: walk2.simps [of _ _ _ _ cm])
    qed
  qed
qed

lemma body2_Break:
  assumes "body2 TL nice cm r = Break r'" "\<not> strstart (fst r) \<le> cm"
  shows "upd2 cm r r'"
  using assms unfolding body2_def upd2_def improves_def probe2_def
  by (auto split: if_splits)

lemma body2_Continue:
  assumes "body2 TL nice cm r = Continue r'"
  shows "upd2 cm r r' \<and> \<not> strstart (fst r) \<le> cm \<and> \<not> accepts nice (probe2 r cm) \<and>
    \<not> gives_up TL (fst r) (probe2 r cm)"
  using assms unfolding body2_def upd2_def improves_def probe2_def accepts_def gives_up_def
  by (auto split: if_splits)

lemma walk2_guard: "strstart (fst r) \<le> cm \<Longrightarrow> walk2 TL nice wmask limit cm cl r = r"
  by (simp add: walk2.simps body2_def)

lemma trace2_guard: "strstart (fst r) \<le> cm \<Longrightarrow> trace2 TL nice wmask limit cm cl r = []"
  by (simp add: trace2.simps)

lemma walk2_induct2 [case_names guard stop go]:
  assumes guard: "\<And>cm cl r. strstart (fst r) \<le> cm \<Longrightarrow> P cm cl r"
    and stop: "\<And>cm cl r r'. \<not> strstart (fst r) \<le> cm \<Longrightarrow>
        walk2 TL nice wmask limit cm cl r = r' \<Longrightarrow>
        trace2 TL nice wmask limit cm cl r = [probe2 r cm] \<Longrightarrow>
        upd2 cm r r' \<Longrightarrow> P cm cl r"
    and go: "\<And>cm cl r r' p. \<not> strstart (fst r) \<le> cm \<Longrightarrow>
        walk2 TL nice wmask limit cm cl r = walk2 TL nice wmask limit (fst p) (snd p) r' \<Longrightarrow>
        trace2 TL nice wmask limit cm cl r =
          probe2 r cm # trace2 TL nice wmask limit (fst p) (snd p) r' \<Longrightarrow>
        upd2 cm r r' \<Longrightarrow> next_link2 (fst r') wmask limit cm cl = Some p \<Longrightarrow>
        \<not> accepts nice (probe2 r cm) \<Longrightarrow> \<not> gives_up TL (fst r) (probe2 r cm) \<Longrightarrow>
        P (fst p) (snd p) r' \<Longrightarrow> P cm cl r"
  shows "P cm cl r"
  using guard stop go
proof (induction TL nice wmask limit cm cl r rule: walk2.induct)
  case (1 TL nice wmask limit cm cl r)
  note guard = "1.prems"(1) and stop = "1.prems"(2) and go = "1.prems"(3)
  show ?case
  proof (cases "strstart (fst r) \<le> cm")
    case True
    then show ?thesis by (rule guard)
  next
    case ng: False
    show ?thesis
    proof (cases "body2 TL nice cm r")
      case (Break r')
      show ?thesis
      proof (rule stop [OF ng, of _ r'])
        show "walk2 TL nice wmask limit cm cl r = r'"
          using Break by (simp add: walk2.simps)
        show "trace2 TL nice wmask limit cm cl r = [probe2 r cm]"
          using Break ng by (simp add: trace2.simps)
        show "upd2 cm r r'" using Break ng by (rule body2_Break)
      qed
    next
      case (Continue r')
      note c = body2_Continue [OF Continue]
      show ?thesis
      proof (cases "next_link2 (fst r') wmask limit cm cl")
        case None
        show ?thesis
        proof (rule stop [OF ng, of _ r'])
          show "walk2 TL nice wmask limit cm cl r = r'"
            using Continue None by (simp add: walk2.simps)
          show "trace2 TL nice wmask limit cm cl r = [probe2 r cm]"
            using Continue None ng by (simp add: trace2.simps)
          show "upd2 cm r r'" using c by simp
        qed
      next
        case (Some p)
        show ?thesis
        proof (rule go [OF ng, of _ p r'])
          show "walk2 TL nice wmask limit cm cl r = walk2 TL nice wmask limit (fst p) (snd p) r'"
            using Continue Some by (simp add: walk2.simps)
          show "trace2 TL nice wmask limit cm cl r =
              probe2 r cm # trace2 TL nice wmask limit (fst p) (snd p) r'"
            using Continue Some ng by (simp add: trace2.simps)
          show "upd2 cm r r'" using c by simp
          show "next_link2 (fst r') wmask limit cm cl = Some p" by (rule Some)
          show "\<not> accepts nice (probe2 r cm)" using c by simp
          show "\<not> gives_up TL (fst r) (probe2 r cm)" using c by simp
          show "P (fst p) (snd p) r'" using "1.IH" [OF Continue Some guard stop go] .
        qed
      qed
    qed
  qed
qed

lemma upd2_frame: "upd2 cm r r' \<Longrightarrow> (fst r')\<lparr>match_start := 0\<rparr> = (fst r)\<lparr>match_start := 0\<rparr>"
  by (auto simp: upd2_def)

lemma trace2_stops:
  "\<forall>e\<in>set (butlast (trace2 TL nice wmask limit cm cl r)).
     \<not> accepts nice e \<and> \<not> gives_up TL (fst r) e"
proof (induction cm cl r rule: walk2_induct2 [where TL = TL and nice = nice and wmask = wmask and limit = limit])
  case (guard cm cl r)
  then show ?case by (simp add: trace2_guard)
next
  case (stop cm cl r r')
  then show ?case by simp
next
  case (go cm cl r r' p)
  have "level (fst r') = level (fst r)"
    using go.hyps(4) by (intro frame_fields(10) upd2_frame)
  then have "gives_up TL (fst r') e = gives_up TL (fst r) e" for e
    by (simp add: gives_up_def split: option.splits)
  then show ?case using go.IH go.hyps(3,6,7) by simp
qed

lemma probes2_stops:
  assumes "i < length (probes2 TL s cm)"
    and "accepts (nice_eff s) (probes2 TL s cm ! i) \<or> gives_up TL s (probes2 TL s cm ! i)"
  shows "Suc i = length (probes2 TL s cm)"
proof (rule ccontr)
  assume "Suc i \<noteq> length (probes2 TL s cm)"
  with assms(1) have "i < length (butlast (probes2 TL s cm))" by simp
  then have "probes2 TL s cm ! i \<in> set (butlast (probes2 TL s cm))"
    by (metis nth_butlast nth_mem)
  then show False
    using trace2_stops [of TL "nice_eff s" "w_mask s" "dist_limit s" cm "chain_budget s"
      "(s, start_locals2 s)"] assms(2)
    unfolding probes2_def by auto
qed

lemma next_link2_Some:
  "next_link2 s wmask limit cm cl = Some p \<Longrightarrow> limit < fst p \<and> snd p = cl - 1 \<and> cl - 1 \<noteq> 0"
  by (auto simp: next_link2_def split: if_splits)

lemma probe2_simps [simp]:
  "p_cand (probe2 r cm) = cm" "p_best (probe2 r cm) = best_len2 (snd r)"
  by (simp_all add: probe2_def)

lemma trace2_Nil: "trace2 TL nice wmask limit cm cl r = [] \<longleftrightarrow> strstart (fst r) \<le> cm"
  by (simp add: trace2.simps)

lemma walk2_result:
  "(\<not> (\<exists>e\<in>set (trace2 TL nice wmask limit cm cl r). improves e) \<and>
      walk2 TL nice wmask limit cm cl r = r) \<or>
   ((\<exists>e\<in>set (trace2 TL nice wmask limit cm cl r). improves e) \<and>
      best_len2 (snd r) < best_len2 (snd (walk2 TL nice wmask limit cm cl r)) \<and>
      (\<exists>e. find (\<lambda>e. p_len e = Some (best_len2 (snd (walk2 TL nice wmask limit cm cl r))))
             (trace2 TL nice wmask limit cm cl r) = Some e \<and>
           p_cand e = match_start (fst (walk2 TL nice wmask limit cm cl r))))"
proof (induction cm cl r rule: walk2_induct2 [where TL = TL and nice = nice and wmask = wmask and limit = limit])
  case (guard cm cl r)
  then show ?case by (simp add: walk2_guard trace2_guard)
next
  case (stop cm cl r r')
  show ?case
  proof (cases "improves (probe2 r cm)")
    case True
    with stop show ?thesis
      by (auto simp: upd2_def improves_def split: option.splits)
  next
    case False
    with stop show ?thesis by (simp add: upd2_def)
  qed
next
  case (go cm cl r r' p)
  let ?w = "walk2 TL nice wmask limit (fst p) (snd p) r'"
  let ?t = "trace2 TL nice wmask limit (fst p) (snd p) r'"
  show ?case
  proof (cases "improves (probe2 r cm)")
    case True
    with go have u: "fst r' = (fst r)\<lparr>match_start := cm\<rparr>"
        "p_len (probe2 r cm) = Some (best_len2 (snd r'))" "best_len2 (snd r) < best_len2 (snd r')"
      by (auto simp: upd2_def improves_def split: option.splits)
    from go.IH show ?thesis
    proof
      assume a: "\<not> (\<exists>e\<in>set ?t. improves e) \<and> ?w = r'"
      with True u go.hyps(2,3) show ?thesis by simp
    next
      assume a: "(\<exists>e\<in>set ?t. improves e) \<and> best_len2 (snd r') < best_len2 (snd ?w) \<and>
        (\<exists>e. find (\<lambda>e. p_len e = Some (best_len2 (snd ?w))) ?t = Some e \<and>
           p_cand e = match_start (fst ?w))"
      then have "best_len2 (snd r) < best_len2 (snd ?w)" using u(3) by (auto intro: less_trans)
      moreover have "p_len (probe2 r cm) \<noteq> Some (best_len2 (snd ?w))" using a u(2) by auto
      ultimately show ?thesis using True a go.hyps(2,3) by simp
    qed
  next
    case False
    with go have u: "r' = r" by (simp add: upd2_def)
    from go.IH show ?thesis
    proof
      assume a: "\<not> (\<exists>e\<in>set ?t. improves e) \<and> ?w = r'"
      with False u go.hyps(2,3) show ?thesis by simp
    next
      assume a: "(\<exists>e\<in>set ?t. improves e) \<and> best_len2 (snd r') < best_len2 (snd ?w) \<and>
        (\<exists>e. find (\<lambda>e. p_len e = Some (best_len2 (snd ?w))) ?t = Some e \<and>
           p_cand e = match_start (fst ?w))"
      have "p_len (probe2 r cm) \<noteq> Some (best_len2 (snd ?w))"
        using a u False by (auto simp: improves_def)
      then show ?thesis using a u go.hyps(2,3) by simp
    qed
  qed
qed

lemma trace2_probes:
  "\<forall>e\<in>set (trace2 TL nice wmask limit cm cl r). p_cand e < strstart (fst r)"
proof (induction cm cl r rule: walk2_induct2 [where TL = TL and nice = nice and wmask = wmask and limit = limit])
  case (guard cm cl r)
  then show ?case by (simp add: trace2_guard)
next
  case (stop cm cl r r')
  then show ?case by auto
next
  case (go cm cl r r' p)
  have "strstart (fst r') = strstart (fst r)"
    using go.hyps(4) by (intro frame_fields(4) upd2_frame)
  then show ?case using go.IH go.hyps(1,3) by auto
qed

lemma trace2_above_limit:
  "limit < cm \<Longrightarrow> \<forall>e\<in>set (trace2 TL nice wmask limit cm cl r). limit < p_cand e"
proof (induction cm cl r rule: walk2_induct2 [where TL = TL and nice = nice and wmask = wmask and limit = limit])
  case (guard cm cl r)
  then show ?case by (simp add: trace2_guard)
next
  case (stop cm cl r r')
  then show ?case by simp
next
  case (go cm cl r r' p)
  then show ?case using next_link2_Some [OF go.hyps(5)] by simp
qed

lemma trace2_head_tail:
  "trace2 TL nice wmask limit cm cl r = [] \<or>
   (p_cand (hd (trace2 TL nice wmask limit cm cl r)) = cm \<and>
    (\<forall>e\<in>set (tl (trace2 TL nice wmask limit cm cl r)). limit < p_cand e))"
proof (induction cm cl r rule: walk2_induct2 [where TL = TL and nice = nice and wmask = wmask and limit = limit])
  case (guard cm cl r)
  then show ?case by (simp add: trace2_guard)
next
  case (stop cm cl r r')
  then show ?case by simp
next
  case (go cm cl r r' p)
  from next_link2_Some [OF go.hyps(5)] have "limit < fst p" by simp
  then show ?case using go.hyps(3) trace2_above_limit [of limit "fst p" TL nice wmask "snd p" r']
    by simp
qed

lemma lm2_match_start:
  "match_start (snd (longest_match2 TL s cm)) =
     match_start (fst (walk2 TL (nice_eff s) (w_mask s) (dist_limit s) cm (chain_budget s)
       (s, start_locals2 s)))"
  by (simp add: longest_match2_def finish2_def)

lemma start2 [simp]: "best_len2 (start_locals2 s) = start_len s"
  by (simp add: start_locals2_def)

lemma lm2_result:
  "(\<not> (\<exists>e\<in>set (probes2 TL s cm). improves e) \<and>
      best_found2 TL s cm = start_len s \<and>
      match_start (snd (longest_match2 TL s cm)) = match_start s) \<or>
   ((\<exists>e\<in>set (probes2 TL s cm). improves e) \<and>
      start_len s < best_found2 TL s cm \<and>
      (\<exists>e. find (\<lambda>e. p_len e = Some (best_found2 TL s cm)) (probes2 TL s cm) = Some e \<and>
           p_cand e = match_start (snd (longest_match2 TL s cm))))"
  using walk2_result [of TL "nice_eff s" "w_mask s" "dist_limit s" cm "chain_budget s"
      "(s, start_locals2 s)"]
  unfolding probes2_def best_found2_def lm2_match_start
  by (elim disjE conjE) simp_all

lemma probes2_facts: "e \<in> set (probes2 TL s cm) \<Longrightarrow> p_cand e < strstart s"
  using trace2_probes [of TL "nice_eff s" "w_mask s" "dist_limit s" cm "chain_budget s"
      "(s, start_locals2 s)"]
  unfolding probes2_def by simp

lemma probes2_head_tail:
  "(probes2 TL s cm = [] \<longleftrightarrow> strstart s \<le> cm) \<and>
   (probes2 TL s cm \<noteq> [] \<longrightarrow> p_cand (hd (probes2 TL s cm)) = cm) \<and>
   (\<forall>e\<in>set (tl (probes2 TL s cm)). dist_limit s < p_cand e)"
  using trace2_head_tail [of TL "nice_eff s" "w_mask s" "dist_limit s" cm "chain_budget s"
      "(s, start_locals2 s)"]
    trace2_Nil [of TL "nice_eff s" "w_mask s" "dist_limit s" cm "chain_budget s"
      "(s, start_locals2 s)"]
  unfolding probes2_def by auto

lemma probes2_range:
  assumes "e \<in> set (probes2 TL s cm)" "cm < strstart s" "strstart s - cm \<le> max_dist s"
  shows "dist_limit s \<le> p_cand e \<and> strstart s - p_cand e \<le> max_dist s"
proof -
  from assms(1) have ne: "probes2 TL s cm \<noteq> []" by auto
  with assms(1) have "e = hd (probes2 TL s cm) \<or> e \<in> set (tl (probes2 TL s cm))"
    by (cases "probes2 TL s cm") auto
  then have l: "dist_limit s \<le> p_cand e"
  proof
    assume "e = hd (probes2 TL s cm)"
    then have "p_cand e = cm" using probes2_head_tail [of TL s cm] ne by simp
    then show ?thesis using head_in_range [OF assms(2,3)] by simp
  next
    assume "e \<in> set (tl (probes2 TL s cm))"
    then show ?thesis using probes2_head_tail [of TL s cm] by auto
  qed
  moreover have "p_cand e < strstart s" using probes2_facts [OF assms(1)] by simp
  ultimately show ?thesis using within_dist_le [of s "p_cand e"] by simp
qed

subsection \<open>The walk of std3\<close>

lemma scan_loop3_lower: "scan \<le> scan_loop3 w strend scan match"
proof (induction w strend scan match rule: scan_loop3.induct)
  case (1 w strend scan match)
  show ?case
  proof (cases "load64 w scan XOR load64 w match \<noteq> 0")
    case True
    then show ?thesis by (subst scan_loop3.simps) simp
  next
    case z: False
    show ?thesis
    proof (cases "scan + 8 < strend")
      case True
      with z "1.IH" show ?thesis by (subst scan_loop3.simps) simp
    next
      case False
      with z show ?thesis by (subst scan_loop3.simps) simp
    qed
  qed
qed

lemma match_len3_bounds: "4 \<le> match_len3 s cm \<and> match_len3 s cm \<le> 258"
proof -
  define e where "e = scan_loop3 (window s) (uint (strstart s) + 258) (uint (strstart s) + 4)
    (uint cm + 4)"
  define d where "d = (if uint (strstart s) + 258 < e then 258 else e - uint (strstart s))"
  have "uint (strstart s) + 4 \<le> e" unfolding e_def by (rule scan_loop3_lower)
  then have b: "4 \<le> d" "d \<le> 258" by (simp_all add: d_def)
  have "match_len3 s cm = word_of_int d"
    by (simp add: match_len3_def MAX_MATCH_def Let_def d_def e_def)
  then have "uint (match_len3 s cm) = take_bit 32 d"
    by (simp only: uint_word_of_int_eq) simp
  also have "\<dots> = d" using b by (simp add: take_bit_int_eq_self)
  finally show ?thesis using b by (simp add: word_le_def)
qed

lemma body3_best:
  assumes "best_len3 (snd r) \<le> 258"
  shows "case body3 nice cm r of
           Break r' \<Rightarrow> best_len3 (snd r') \<le> 258 \<and> lookahead (fst r') = lookahead (fst r)
         | Continue r' \<Rightarrow> best_len3 (snd r') \<le> 258 \<and> lookahead (fst r') = lookahead (fst r)"
  using assms match_len3_bounds [of "fst r" cm] by (simp add: body3_def)

lemma walk3_best:
  "best_len3 (snd r) \<le> 258 \<Longrightarrow>
   best_len3 (snd (walk3 nice wmask limit cm cl r)) \<le> 258 \<and>
   lookahead (fst (walk3 nice wmask limit cm cl r)) = lookahead (fst r)"
proof (induction nice wmask limit cm cl r rule: walk3.induct)
  case (1 nice wmask limit cm cl r)
  note b = body3_best [OF "1.prems", of nice cm]
  show ?case
  proof (cases "body3 nice cm r")
    case (Break r')
    with b show ?thesis by (simp add: walk3.simps)
  next
    case (Continue r')
    show ?thesis
    proof (cases "next_link (fst r') wmask limit cm cl")
      case None
      with b Continue show ?thesis by (simp add: walk3.simps)
    next
      case (Some p)
      with b Continue "1.IH" [OF Continue Some] show ?thesis
        by (simp add: walk3.simps [of _ _ _ cm])
    qed
  qed
qed

lemma walk3_lookahead:
  "lookahead (fst (walk3 nice wmask limit cm cl r)) = lookahead (fst r)"
proof (induction nice wmask limit cm cl r rule: walk3.induct)
  case (1 nice wmask limit cm cl r)
  have b: "case body3 nice cm r of
      Break r' \<Rightarrow> lookahead (fst r') = lookahead (fst r)
    | Continue r' \<Rightarrow> lookahead (fst r') = lookahead (fst r)"
    by (simp add: body3_def)
  show ?case
  proof (cases "body3 nice cm r")
    case (Break r')
    with b show ?thesis by (simp add: walk3.simps)
  next
    case (Continue r')
    show ?thesis
    proof (cases "next_link (fst r') wmask limit cm cl")
      case None
      with b Continue show ?thesis by (simp add: walk3.simps)
    next
      case (Some p)
      with b Continue "1.IH" [OF Continue Some] show ?thesis
        by (simp add: walk3.simps [of _ _ _ cm])
    qed
  qed
qed

section \<open>The claims\<close>

subsection \<open>C1: the variants against each other\<close>

text \<open>
  Without the condition on byte 2 the variants std1 and std2 differ: on \<open>st_hash\<close>
  std1 skips byte 2 and reports six bytes, std2 compares it and reports two.
\<close>

lemma third_byte_needed:
  "\<not> third_byte_ok 5 st_hash 2 \<and> fst (longest_match1 5 st_hash 2) = 6 \<and>
   fst (longest_match2 5 st_hash 2) = 2"
  by code_simp

text \<open>
  C1 (as amended). The claim is that std1, std2 and std3 return the same length and
  record the same \<open>match_start\<close> on every input. What holds: std1 and std2 return the
  same length and leave the same state whenever every examined candidate that agrees
  with the current string in its first two bytes agrees in the third. std3 is a
  different search and is not part of the statement.
\<close>

theorem variants_agree:
  "third_byte_ok TL s cm \<Longrightarrow> longest_match2 TL s cm = longest_match1 TL s cm"
proof -
  assume "third_byte_ok TL s cm"
  then have t: "\<forall>e\<in>set (trace1 TL (nice_eff s) (w_mask s) (dist_limit s) cm (chain_budget s)
      (s, start_locals1 s)). byte3 (fst (s, start_locals1 s)) (p_cand e)"
    by (simp add: third_byte_ok_def probes1_def)
  have nz: "start_len s \<noteq> 0" by (simp add: start_len_def)
  then have "uint (start_len s - 1) = uint (start_len s) - 1" by (rule uint_pred)
  then have "rel12 (s, start_locals1 s) (s, start_locals2 s)"
    using nz by (simp add: rel12_def start_locals1_def start_locals2_def load16_def add_diff_eq)
  from walk12 [OF this t]
  show ?thesis
    by (simp add: longest_match1_def longest_match2_def finish1_def finish2_def rel12_def)
qed

theorem variants_agree_witness:
  "third_byte_ok 5 st_tie 10 \<and> longest_match2 5 st_tie 10 = longest_match1 5 st_tie 10 \<and>
   fst (longest_match2 5 st_tie 10) = 6 \<and> match_start (snd (longest_match2 5 st_tie 10)) = 10"
proof -
  have h: "third_byte_ok 5 st_tie 10" by code_simp
  have c: "fst (longest_match2 5 st_tie 10) = 6 \<and>
    match_start (snd (longest_match2 5 st_tie 10)) = 10" by code_simp
  from variants_agree [OF h] h c show ?thesis by simp
qed

text \<open>
  The strings at 2 and at 8 agree in exactly three bytes and follow equal bytes. std1 and
  std2 report the three bytes at offset 2; std3, which wants the first four bytes to
  agree, rejects the candidate and returns \<open>prev_length\<close> with \<open>match_start\<close>
  untouched.
\<close>

theorem variants_agree_counterexample:
  "in_assertions st_min3 2 \<and>
   window st_min3 (uint (strstart st_min3) - 1) = window st_min3 (uint (2 :: 32 word) - 1) \<and>
   lcp (window st_min3) 8 2 258 = 3 \<and>
   fst (longest_match1 5 st_min3 2) = 3 \<and> match_start (snd (longest_match1 5 st_min3 2)) = 2 \<and>
   fst (longest_match2 5 st_min3 2) = 3 \<and> match_start (snd (longest_match2 5 st_min3 2)) = 2 \<and>
   fst (longest_match3 st_min3 2) = 2 \<and> match_start (snd (longest_match3 st_min3 2)) = 0 \<and>
   fst (longest_match3 st_min3 2) \<noteq> fst (longest_match1 5 st_min3 2) \<and>
   match_start (snd (longest_match3 st_min3 2)) \<noteq> match_start (snd (longest_match1 5 st_min3 2))"
  by code_simp

text \<open>
  On the scenario of the specification (\<open>abcXYZ\<close> twice, \<open>prev_length = 2\<close>) std1 and
  std2 find the six bytes at offset 2, while std3 finds nothing: with \<open>best_len = 2\<close>
  its probe of the four bytes that end at offset \<open>best_len\<close> starts one byte before
  the two strings, and those bytes differ.
\<close>

lemma std3_on_abc:
  "fst (longest_match1 5 st_abc 2) = 6 \<and> match_start (snd (longest_match1 5 st_abc 2)) = 2 \<and>
   fst (longest_match2 5 st_abc 2) = 6 \<and> match_start (snd (longest_match2 5 st_abc 2)) = 2 \<and>
   quick_reject3 st_abc (start_locals3 st_abc) 2 \<and>
   fst (longest_match3 st_abc 2) = 2 \<and> match_start (snd (longest_match3 st_abc 2)) = 0"
  by code_simp

subsection \<open>C2: the bound on the returned length\<close>

text \<open>
  C2 (as amended). The value returned by \<open>longest_match\<close> is at most
  \<open>s->lookahead\<close> in every call, and when \<open>prev_length\<close> is at most \<open>MAX_MATCH\<close>
  it is at most \<open>MAX_MATCH\<close> (258), whatever the bytes past the valid input are; this
  holds for std1, std2 and std3.
\<close>

theorem length_bound:
  "fst (longest_match1 TL s cm) \<le> lookahead s \<and>
   fst (longest_match2 TL s cm) \<le> lookahead s \<and>
   fst (longest_match3 s cm) \<le> lookahead s \<and>
   (prev_length s \<le> 258 \<longrightarrow>
      fst (longest_match1 TL s cm) \<le> 258 \<and> fst (longest_match2 TL s cm) \<le> 258 \<and>
      fst (longest_match3 s cm) \<le> 258)"
proof (intro conjI impI)
  show "fst (longest_match1 TL s cm) \<le> lookahead s" by (simp add: lm1_fst)
  show "fst (longest_match2 TL s cm) \<le> lookahead s"
    using walk2_lookahead [of TL "nice_eff s" "w_mask s" "dist_limit s" cm "chain_budget s"
        "(s, start_locals2 s)"]
    by (simp add: longest_match2_def finish2_def)
  show "fst (longest_match3 s cm) \<le> lookahead s"
    using walk3_lookahead [of "nice_eff s" "w_mask s" "dist_limit s" cm "chain_budget3 s"
        "(s, start_locals3 s)"]
    by (simp add: longest_match3_def finish3_def)
next
  assume a: "prev_length s \<le> 258"
  then have s: "start_len s \<le> 258" by (simp add: start_len_def)
  show "fst (longest_match1 TL s cm) \<le> 258"
    using best_found1_upper [OF a, of TL cm] by (auto simp: lm1_fst)
  show "fst (longest_match2 TL s cm) \<le> 258"
    using walk2_best [of "(s, start_locals2 s)" TL "nice_eff s" "w_mask s" "dist_limit s" cm
        "chain_budget s"] s
    by (auto simp: longest_match2_def finish2_def start_locals2_def)
  show "fst (longest_match3 s cm) \<le> 258"
    using walk3_best [of "(s, start_locals3 s)" "nice_eff s" "w_mask s" "dist_limit s" cm
        "chain_budget3 s"] a
    by (auto simp: longest_match3_def finish3_def start_locals3_def)
qed

text \<open>
  The scenario of the specification: ten bytes match, three of them are valid input, and
  the call returns 3.
\<close>

theorem length_bound_witness:
  "prev_length st_slack \<le> 258 \<and> lookahead st_slack = 3 \<and> best_found1 5 st_slack 2 = 10 \<and>
   fst (longest_match1 5 st_slack 2) = 3 \<and> fst (longest_match2 5 st_slack 2) = 3 \<and>
   fst (longest_match3 st_slack 2) \<le> lookahead st_slack \<and>
   fst (longest_match1 5 st_slack 2) \<le> 258 \<and> fst (longest_match2 5 st_slack 2) \<le> 258 \<and>
   fst (longest_match3 st_slack 2) \<le> 258"
proof -
  have h: "prev_length st_slack \<le> 258" by code_simp
  have c: "lookahead st_slack = 3 \<and> best_found1 5 st_slack 2 = 10 \<and>
   fst (longest_match1 5 st_slack 2) = 3 \<and> fst (longest_match2 5 st_slack 2) = 3"
    by code_simp
  from length_bound [of 5 st_slack 2] h c show ?thesis by simp
qed

text \<open>
  A call that satisfies the assertions of the header with \<open>prev_length = lookahead = 300\<close>
  returns 300.
\<close>

theorem length_bound_counterexample:
  "in_assertions st_long 2 \<and> prev_length st_long = 300 \<and> lookahead st_long = 300 \<and>
   fst (longest_match1 5 st_long 2) = 300 \<and> \<not> fst (longest_match1 5 st_long 2) \<le> 258"
  by code_simp

subsection \<open>C3: never less than \<open>prev_length\<close>\<close>

text \<open>
  C3 (as amended). The value returned by \<open>longest_match\<close> (std1) is at least the
  smaller of \<open>s->prev_length\<close> and \<open>s->lookahead\<close>; so when \<open>prev_length\<close> is at
  most \<open>lookahead\<close>, it is greater than or equal to \<open>s->prev_length\<close>.
\<close>

theorem never_worse:
  "min (prev_length s) (lookahead s) \<le> fst (longest_match1 TL s cm) \<and>
   (prev_length s \<le> lookahead s \<longrightarrow> prev_length s \<le> fst (longest_match1 TL s cm))"
  using best_found1_lower [of s TL cm] start_len_bounds [of s]
  by (auto simp: lm1_fst min_def)

theorem never_worse_witness:
  "prev_length st_abc \<le> lookahead st_abc \<and> prev_length st_abc = 2 \<and>
   fst (longest_match1 5 st_abc 2) = 6 \<and> prev_length st_abc \<le> fst (longest_match1 5 st_abc 2)"
proof -
  have h: "prev_length st_abc \<le> lookahead st_abc" by code_simp
  have c: "prev_length st_abc = 2 \<and> fst (longest_match1 5 st_abc 2) = 6" by code_simp
  from never_worse [of st_abc 5 2] h c show ?thesis by simp
qed

text \<open>
  At the end of the input, with \<open>prev_length = 5\<close> and \<open>lookahead = 4\<close>, the call
  returns 4.
\<close>

theorem never_worse_counterexample:
  "in_assertions st_tail 2 \<and> prev_length st_tail = 5 \<and> lookahead st_tail = 4 \<and>
   fst (longest_match1 5 st_tail 2) = 4 \<and>
   \<not> prev_length st_tail \<le> fst (longest_match1 5 st_tail 2)"
  by code_simp

subsection \<open>C4: the tie-break\<close>



subsection \<open>C5: the early stop at \<open>nice_match\<close>\<close>

text \<open>
  C5 (as amended). \<open>longest_match\<close> (std1) computes an effective \<open>nice_match\<close> equal to
  \<open>min(s->nice_match, s->lookahead)\<close>, and whenever a candidate yields a length that is
  greater than the current \<open>best_len\<close> and at least this effective \<open>nice_match\<close>, the
  walk stops at that candidate: it is the last one examined, it is recorded in
  \<open>match_start\<close>, and the call returns its length clamped to \<open>lookahead\<close>.
\<close>

theorem nice_stop:
  "nice_eff s = min (nice_match s) (lookahead s) \<and>
   (\<forall>i len. i < length (probes1 TL s cm) \<and> p_len (probes1 TL s cm ! i) = Some len \<and>
      p_best (probes1 TL s cm ! i) < len \<and> nice_eff s \<le> len \<longrightarrow>
      Suc i = length (probes1 TL s cm) \<and>
      match_start (snd (longest_match1 TL s cm)) = p_cand (probes1 TL s cm ! i) \<and>
      fst (longest_match1 TL s cm) = min len (lookahead s))"
proof (intro conjI allI impI)
  show "nice_eff s = min (nice_match s) (lookahead s)"
    by (auto simp: nice_eff_def min_def)
next
  fix i len
  assume a: "i < length (probes1 TL s cm) \<and> p_len (probes1 TL s cm ! i) = Some len \<and>
      p_best (probes1 TL s cm ! i) < len \<and> nice_eff s \<le> len"
  then have acc: "accepts (nice_eff s) (probes1 TL s cm ! i)" by (simp add: accepts_def)
  with a show l: "Suc i = length (probes1 TL s cm)" by (intro probes1_stops) simp_all
  then have ne: "probes1 TL s cm \<noteq> []" by auto
  have la: "last (probes1 TL s cm) = probes1 TL s cm ! i"
    using l last_conv_nth [OF ne] by (metis diff_Suc_1)
  have im: "improves (last (probes1 TL s cm))" using a la by (simp add: improves_def)
  show "match_start (snd (longest_match1 TL s cm)) = p_cand (probes1 TL s cm ! i)"
    using probes1_last(2) [OF ne im] la by simp
  have "best_found1 TL s cm = len" using probes1_last(1) [OF ne im] la a by simp
  then show "fst (longest_match1 TL s cm) = min len (lookahead s)"
    by (auto simp: lm1_fst min_def)
qed

text \<open>
  With \<open>nice_match = 4\<close> the head 12 yields 5 bytes and is accepted; the next chain
  entry, 2, which would yield 8 bytes, is not examined.
\<close>

theorem nice_stop_witness:
  "nice_eff st_nice = 4 \<and> probes1 5 st_nice 12 = [\<lparr>p_cand = 12, p_best = 2, p_len = Some 5\<rparr>] \<and>
   prev st_nice (uint (12 AND w_mask st_nice)) = 2 \<and>
   \<not> quick_reject1 st_nice (start_locals1 st_nice) 2 \<and> match_len1 st_nice 2 = 8 \<and>
   match_start (snd (longest_match1 5 st_nice 12)) = 12 \<and>
   fst (longest_match1 5 st_nice 12) = 5"
proof -
  have c: "nice_eff st_nice = 4 \<and>
    probes1 5 st_nice 12 = [\<lparr>p_cand = 12, p_best = 2, p_len = Some 5\<rparr>] \<and>
    prev st_nice (uint (12 AND w_mask st_nice)) = 2 \<and>
    \<not> quick_reject1 st_nice (start_locals1 st_nice) 2 \<and> match_len1 st_nice 2 = 8"
    by code_simp
  then have "0 < length (probes1 5 st_nice 12) \<and> p_len (probes1 5 st_nice 12 ! 0) = Some 5 \<and>
      p_best (probes1 5 st_nice 12 ! 0) < 5 \<and> nice_eff st_nice \<le> 5"
    by simp
  with nice_stop [of st_nice 5 12]
  have "match_start (snd (longest_match1 5 st_nice 12)) = p_cand (probes1 5 st_nice 12 ! 0) \<and>
      fst (longest_match1 5 st_nice 12) = min 5 (lookahead st_nice)"
    by blast
  moreover have "lookahead st_nice = 8" by code_simp
  ultimately show ?thesis using c by simp
qed

text \<open>
  With \<open>nice_match = 3\<close>, \<open>prev_length = 6\<close> and a level of at least
  \<open>TRIGGER_LEVEL\<close>, the head 10 yields 3 bytes, which reaches \<open>nice_match\<close> but does
  not beat \<open>best_len\<close>: the walk goes on to the candidate 2 and records it.
\<close>

theorem nice_stop_counterexample:
  "in_assertions st_nice_low 10 \<and> nice_eff st_nice_low = 3 \<and>
   probes1 5 st_nice_low 10 =
     [\<lparr>p_cand = 10, p_best = 6, p_len = Some 3\<rparr>, \<lparr>p_cand = 2, p_best = 6, p_len = Some 8\<rparr>] \<and>
   match_start (snd (longest_match1 5 st_nice_low 10)) = 2"
  by code_simp

subsection \<open>C6: the distance limit\<close>

text \<open>
  C6 (as amended). In a call of \<open>longest_match\<close> (std1) the chain head is examined
  exactly when it lies before \<open>strstart\<close>, whatever its distance (that its distance is
  at most \<open>MAX_DIST\<close> is the caller's duty); every candidate reached through a chain
  link is examined only if it lies above \<open>limit\<close>, so that its distance is strictly
  less than \<open>MAX_DIST\<close>: a linked candidate at distance exactly \<open>MAX_DIST\<close>, or
  farther, ends the walk unexamined.
\<close>

theorem distance_limit:
  "(probes1 TL s cm = [] \<longleftrightarrow> strstart s \<le> cm) \<and>
   (probes1 TL s cm \<noteq> [] \<longrightarrow> p_cand (hd (probes1 TL s cm)) = cm) \<and>
   (\<forall>e\<in>set (tl (probes1 TL s cm)).
      dist_limit s < p_cand e \<and> p_cand e < strstart s \<and> strstart s - p_cand e < max_dist s)"
proof (intro conjI ballI)
  fix e
  assume e: "e \<in> set (tl (probes1 TL s cm))"
  then show l: "dist_limit s < p_cand e" using probes1_head_tail [of TL s cm] by simp
  from e have "e \<in> set (probes1 TL s cm)" by (cases "probes1 TL s cm") auto
  then show u: "p_cand e < strstart s" using probes1_facts by simp
  from l u show "strstart s - p_cand e < max_dist s" by (rule within_dist)
qed (use probes1_head_tail [of TL s cm] in simp_all)

theorem distance_limit_witness:
  "probes1 5 st_tie 10 \<noteq> [] \<and> p_cand (hd (probes1 5 st_tie 10)) = 10 \<and>
   map p_cand (tl (probes1 5 st_tie 10)) = [2] \<and> dist_limit st_tie = 0 \<and>
   strstart st_tie - 2 = 18 \<and> max_dist st_tie = 250 \<and>
   list_all (\<lambda>e. dist_limit st_tie < p_cand e \<and> p_cand e < strstart st_tie \<and>
     strstart st_tie - p_cand e < max_dist st_tie) (tl (probes1 5 st_tie 10))"
proof -
  have c: "probes1 5 st_tie 10 \<noteq> [] \<and> map p_cand (tl (probes1 5 st_tie 10)) = [2] \<and>
    dist_limit st_tie = 0 \<and> strstart st_tie - 2 = 18 \<and> max_dist st_tie = 250"
    by code_simp
  with distance_limit [of 5 st_tie 10] show ?thesis by (simp add: list_all_iff)
qed

text \<open>
  The current position is 300 and \<open>limit\<close> is 50. The head 100 links to 50, a candidate
  at distance exactly \<open>MAX_DIST\<close> that matches in 8 bytes; it is not examined, and the
  call returns the 4 bytes of the head.
\<close>

theorem distance_limit_counterexample:
  "in_assertions st_far 100 \<and>
   dist_limit st_far = 50 \<and> strstart st_far - 50 = max_dist st_far \<and>
   ucast (prev st_far (uint (100 AND w_mask st_far))) = (50 :: 32 word) \<and>
   \<not> quick_reject1 st_far (start_locals1 st_far) 50 \<and> match_len1 st_far 50 = 8 \<and>
   probes1 5 st_far 100 = [\<lparr>p_cand = 100, p_best = 2, p_len = Some 4\<rparr>] \<and>
   match_start (snd (longest_match1 5 st_far 100)) = 100 \<and>
   fst (longest_match1 5 st_far 100) = 4"
  by code_simp

subsection \<open>C7: giving up at low levels\<close>

text \<open>
  C7 (as amended). In the variants std1 and std2, for every call with \<open>s->level\<close> below
  \<open>TRIGGER_LEVEL\<close>, the walk stops as soon as one examined candidate, after its
  extension, fails to improve on \<open>best_len\<close>: that candidate is the last one examined.
  The variant std3 never reads \<open>s->level\<close> and has no such stop.
\<close>

theorem level_stop:
  "level s <s TL \<Longrightarrow>
   (\<forall>i len. i < length (probes1 TL s cm) \<and> p_len (probes1 TL s cm ! i) = Some len \<and>
      \<not> p_best (probes1 TL s cm ! i) < len \<longrightarrow> Suc i = length (probes1 TL s cm)) \<and>
   (\<forall>i len. i < length (probes2 TL s cm) \<and> p_len (probes2 TL s cm ! i) = Some len \<and>
      \<not> p_best (probes2 TL s cm ! i) < len \<longrightarrow> Suc i = length (probes2 TL s cm))"
proof (intro conjI allI impI)
  fix i len
  assume l: "level s <s TL"
    and a: "i < length (probes1 TL s cm) \<and> p_len (probes1 TL s cm ! i) = Some len \<and>
      \<not> p_best (probes1 TL s cm ! i) < len"
  then have "gives_up TL s (probes1 TL s cm ! i)" by (simp add: gives_up_def)
  with a show "Suc i = length (probes1 TL s cm)" by (intro probes1_stops) simp_all
next
  fix i len
  assume l: "level s <s TL"
    and a: "i < length (probes2 TL s cm) \<and> p_len (probes2 TL s cm ! i) = Some len \<and>
      \<not> p_best (probes2 TL s cm ! i) < len"
  then have "gives_up TL s (probes2 TL s cm ! i)" by (simp add: gives_up_def)
  with a show "Suc i = length (probes2 TL s cm)" by (intro probes2_stops) simp_all
qed

text \<open>
  At level 1 the head 20 passes the quick rejection and yields 4 bytes against a
  \<open>best_len\<close> of 8. std1 and std2 stop there, although the chain goes on to the
  candidate 2 with budget left, and return 8.
\<close>

theorem level_stop_witness:
  "level st_low <s 5 \<and>
   probes1 5 st_low 20 = [\<lparr>p_cand = 20, p_best = 8, p_len = Some 4\<rparr>] \<and>
   probes2 5 st_low 20 = [\<lparr>p_cand = 20, p_best = 8, p_len = Some 4\<rparr>] \<and>
   next_link st_low (w_mask st_low) (dist_limit st_low) 20 (chain_budget st_low) = Some (2, 127) \<and>
   Suc 0 = length (probes1 5 st_low 20) \<and> Suc 0 = length (probes2 5 st_low 20) \<and>
   fst (longest_match1 5 st_low 20) = 8 \<and> match_start (snd (longest_match1 5 st_low 20)) = 0"
proof -
  have h: "level st_low <s 5" by code_simp
  have c: "probes1 5 st_low 20 = [\<lparr>p_cand = 20, p_best = 8, p_len = Some 4\<rparr>] \<and>
   probes2 5 st_low 20 = [\<lparr>p_cand = 20, p_best = 8, p_len = Some 4\<rparr>] \<and>
   next_link st_low (w_mask st_low) (dist_limit st_low) 20 (chain_budget st_low) = Some (2, 127) \<and>
   fst (longest_match1 5 st_low 20) = 8 \<and> match_start (snd (longest_match1 5 st_low 20)) = 0"
    by code_simp
  then have "0 < length (probes1 5 st_low 20) \<and> p_len (probes1 5 st_low 20 ! 0) = Some 4 \<and>
      \<not> p_best (probes1 5 st_low 20 ! 0) < 4"
    "0 < length (probes2 5 st_low 20) \<and> p_len (probes2 5 st_low 20 ! 0) = Some 4 \<and>
      \<not> p_best (probes2 5 st_low 20 ! 0) < 4"
    by simp_all
  with level_stop [OF h, of 20]
  have "Suc 0 = length (probes1 5 st_low 20) \<and> Suc 0 = length (probes2 5 st_low 20)"
    by blast
  with h c show ?thesis by blast
qed

text \<open>
  On the same input std3 extends the head 20 to 4 bytes, which does not beat the
  \<open>best_len\<close> of 8, goes on all the same, and records the candidate 2 with 12 bytes.
\<close>

theorem level_stop_counterexample:
  "in_assertions st_low 20 \<and>
   level st_low <s 5 \<and> \<not> quick_reject3 st_low (start_locals3 st_low) 20 \<and>
   match_len3 st_low 20 = 4 \<and> best_len3 (start_locals3 st_low) = 8 \<and>
   fst (longest_match3 st_low 20) = 12 \<and> match_start (snd (longest_match3 st_low 20)) = 2"
  by code_simp

subsection \<open>C8: the only field written\<close>

text \<open>
  C8. A call of \<open>longest_match\<close> (std1) changes no field of the state other than
  \<open>match_start\<close>: the window, the chain array and every other field are as before. If
  no examined candidate improves on \<open>best_len\<close>, \<open>match_start\<close> keeps its value and
  the call returns the initial \<open>best_len\<close> clamped to \<open>lookahead\<close>; and if
  \<open>match_start\<close> has changed, some candidate yielded a length strictly greater than
  the initial \<open>best_len\<close>.
\<close>

theorem only_match_start:
  "snd (longest_match1 TL s cm) = s\<lparr>match_start := match_start (snd (longest_match1 TL s cm))\<rparr> \<and>
   ((\<forall>e\<in>set (probes1 TL s cm). \<not> improves e) \<longrightarrow>
      match_start (snd (longest_match1 TL s cm)) = match_start s \<and>
      fst (longest_match1 TL s cm) = min (start_len s) (lookahead s)) \<and>
   (match_start (snd (longest_match1 TL s cm)) \<noteq> match_start s \<longrightarrow>
      (\<exists>e\<in>set (probes1 TL s cm). \<exists>len. p_len e = Some len \<and> start_len s < len))"
proof (intro conjI impI)
  show "snd (longest_match1 TL s cm) =
      s\<lparr>match_start := match_start (snd (longest_match1 TL s cm))\<rparr>"
    using frame_fields(12) [OF lm1_frame0 [of TL s cm]] .
next
  assume "\<forall>e\<in>set (probes1 TL s cm). \<not> improves e"
  with lm1_result [of TL s cm]
  have "best_found1 TL s cm = start_len s"
    "match_start (snd (longest_match1 TL s cm)) = match_start s"
    by auto
  then show "match_start (snd (longest_match1 TL s cm)) = match_start s"
    and "fst (longest_match1 TL s cm) = min (start_len s) (lookahead s)"
    by (auto simp: lm1_fst min_def)
next
  assume "match_start (snd (longest_match1 TL s cm)) \<noteq> match_start s"
  with lm1_result [of TL s cm] obtain e where e: "e \<in> set (probes1 TL s cm)" "improves e"
    by auto
  then obtain len where "p_len e = Some len" "p_best e < len"
    by (auto simp: improves_def split: option.splits)
  moreover have "start_len s \<le> p_best e" using probes1_facts [OF e(1)] by simp
  ultimately show "\<exists>e\<in>set (probes1 TL s cm). \<exists>len. p_len e = Some len \<and> start_len s < len"
    using e(1) by (auto intro: le_less_trans)
qed

text \<open>
  On \<open>st_low\<close> no candidate improves: \<open>match_start\<close> stays 0 and the call returns the
  initial 8. On \<open>st_abc\<close> the candidate 2 improves and only \<open>match_start\<close> changes.
\<close>

theorem only_match_start_witness:
  "list_all (\<lambda>e. \<not> improves e) (probes1 5 st_low 20) \<and>
   probes1 5 st_low 20 = [\<lparr>p_cand = 20, p_best = 8, p_len = Some 4\<rparr>] \<and>
   match_start (snd (longest_match1 5 st_low 20)) = match_start st_low \<and>
   fst (longest_match1 5 st_low 20) = 8 \<and>
   match_start (snd (longest_match1 5 st_abc 2)) \<noteq> match_start st_abc \<and>
   snd (longest_match1 5 st_abc 2) = st_abc\<lparr>match_start := 2\<rparr> \<and>
   (\<exists>e\<in>set (probes1 5 st_abc 2). \<exists>len. p_len e = Some len \<and> start_len st_abc < len)"
proof -
  have c: "probes1 5 st_low 20 = [\<lparr>p_cand = 20, p_best = 8, p_len = Some 4\<rparr>] \<and>
      start_len st_low = 8 \<and> lookahead st_low = 12"
    by code_simp
  then have h: "\<forall>e\<in>set (probes1 5 st_low 20). \<not> improves e"
    by (simp add: improves_def)
  have d: "match_start (snd (longest_match1 5 st_abc 2)) = 2 \<and> match_start st_abc = 0"
    by code_simp
  then have h2: "match_start (snd (longest_match1 5 st_abc 2)) \<noteq> match_start st_abc" by simp
  from only_match_start [of 5 st_low 20] only_match_start [of 5 st_abc 2] h h2 c d
  show ?thesis by (simp add: min_def list_all_iff)
qed

subsection \<open>C9: bounded work\<close>

text \<open>
  C9 (as amended). Every call of \<open>longest_match\<close> (std1) terminates (the loops are
  total functions, with the budget and the distance to \<open>strend\<close> as measures),
  whatever the chain array holds. When the chain budget (\<open>max_chain_length\<close>, quartered
  when the initial \<open>best_len\<close> is at least \<open>good_match\<close>) is not 0, the walk examines
  at most that many candidates; in any case it examines at most \<open>2^32\<close>. The extension
  of a candidate starts at \<open>strstart + 2\<close> and never moves \<open>scan\<close> past
  \<open>strstart + MAX_MATCH\<close>, one byte comparison per step.
\<close>

theorem bounded_work:
  "length (probes1 TL s cm) \<le> 2 ^ 32 \<and>
   (chain_budget s \<noteq> 0 \<longrightarrow> length (probes1 TL s cm) \<le> unat (chain_budget s)) \<and>
   (\<forall>c :: 32 word. uint (strstart s) + 2 <
          scan_loop1 (window s) (uint (strstart s) + MAX_MATCH) (uint (strstart s) + 2) (uint c + 2) \<and>
        scan_loop1 (window s) (uint (strstart s) + MAX_MATCH) (uint (strstart s) + 2) (uint c + 2)
          \<le> uint (strstart s) + MAX_MATCH)"
proof (intro conjI impI allI)
  have "unat (chain_budget s - 1) < 2 ^ 32"
    using unsigned_less [of "chain_budget s - 1", where 'a = nat] by simp
  then show "length (probes1 TL s cm) \<le> 2 ^ 32" using probes1_length [of TL s cm] by simp
next
  assume "chain_budget s \<noteq> 0"
  then have "Suc (unat (chain_budget s - 1)) = unat (chain_budget s)"
    using unat_minus_one [of "chain_budget s"] unat_eq_zero [of "chain_budget s"] by simp
  then show "length (probes1 TL s cm) \<le> unat (chain_budget s)"
    using probes1_length [of TL s cm] by simp
next
  fix c :: "32 word"
  have "uint (strstart s) + 2 <
      scan_loop1 (window s) (uint (strstart s) + MAX_MATCH) (uint (strstart s) + 2) (uint c + 2) \<and>
    scan_loop1 (window s) (uint (strstart s) + MAX_MATCH) (uint (strstart s) + 2) (uint c + 2)
      \<le> uint (strstart s) + MAX_MATCH"
    by (rule scan_loop1_bounds) (simp_all add: MAX_MATCH_def)
  then show "uint (strstart s) + 2 <
      scan_loop1 (window s) (uint (strstart s) + MAX_MATCH) (uint (strstart s) + 2) (uint c + 2)"
    and "scan_loop1 (window s) (uint (strstart s) + MAX_MATCH) (uint (strstart s) + 2) (uint c + 2)
      \<le> uint (strstart s) + MAX_MATCH"
    by simp_all
qed

theorem bounded_work_witness:
  "chain_budget st_tie \<noteq> 0 \<and> unat (chain_budget st_tie) = 128 \<and>
   length (probes1 5 st_tie 10) = 2 \<and> length (probes1 5 st_tie 10) \<le> unat (chain_budget st_tie)"
proof -
  have c: "chain_budget st_tie \<noteq> 0 \<and> unat (chain_budget st_tie) = 128 \<and>
     length (probes1 5 st_tie 10) = 2" by code_simp
  with bounded_work [of 5 st_tie 10] show ?thesis by blast
qed

text \<open>
  With \<open>max_chain_length = 3\<close> and an initial \<open>best_len\<close> that reaches \<open>good_match\<close>
  the budget is 0, and the walk examines two candidates: the body of the
  \<open>do ... while\<close> runs before the budget is tested, and the decrement of 0 wraps.
\<close>

theorem bounded_work_counterexample:
  "in_assertions st_budget0 10 \<and>
   max_chain_length st_budget0 = 3 \<and> good_match st_budget0 \<le> start_len st_budget0 \<and>
   chain_budget st_budget0 = 0 \<and> length (probes1 5 st_budget0 10) = 2 \<and>
   \<not> length (probes1 5 st_budget0 10) \<le> unat (chain_budget st_budget0)"
  by code_simp

subsection \<open>C10: where the recorded match starts\<close>

text \<open>
  C10 (as amended). In the variants std1 and std2, every candidate that \<open>longest_match\<close>
  examines, and so every position it writes to \<open>s->match_start\<close>, is strictly less than
  \<open>s->strstart\<close>; when the chain head lies before \<open>strstart\<close> at a distance of at
  most \<open>MAX_DIST\<close>, every such position is also at least \<open>limit\<close>, and its distance
  is at most \<open>MAX_DIST\<close>. When some candidate improves, the final \<open>match_start\<close> is
  one of the examined candidates and has these properties; when none does,
  \<open>match_start\<close> keeps its value. The variant std3 has no test of \<open>cur_match\<close>
  against \<open>strstart\<close> (only an \<open>Assert\<close>, compiled out) and is not part of the
  statement.
\<close>

theorem start_in_range:
  "(\<forall>e\<in>set (probes1 TL s cm). p_cand e < strstart s \<and>
      (cm < strstart s \<and> strstart s - cm \<le> max_dist s \<longrightarrow>
         dist_limit s \<le> p_cand e \<and> strstart s - p_cand e \<le> max_dist s)) \<and>
   ((\<exists>e\<in>set (probes1 TL s cm). improves e) \<longrightarrow>
      match_start (snd (longest_match1 TL s cm)) \<in> p_cand ` set (probes1 TL s cm) \<and>
      match_start (snd (longest_match1 TL s cm)) < strstart s \<and>
      (cm < strstart s \<and> strstart s - cm \<le> max_dist s \<longrightarrow>
         dist_limit s \<le> match_start (snd (longest_match1 TL s cm)) \<and>
         strstart s - match_start (snd (longest_match1 TL s cm)) \<le> max_dist s)) \<and>
   (\<not> (\<exists>e\<in>set (probes1 TL s cm). improves e) \<longrightarrow>
      match_start (snd (longest_match1 TL s cm)) = match_start s) \<and>
   (\<forall>e\<in>set (probes2 TL s cm). p_cand e < strstart s \<and>
      (cm < strstart s \<and> strstart s - cm \<le> max_dist s \<longrightarrow>
         dist_limit s \<le> p_cand e \<and> strstart s - p_cand e \<le> max_dist s)) \<and>
   ((\<exists>e\<in>set (probes2 TL s cm). improves e) \<longrightarrow>
      match_start (snd (longest_match2 TL s cm)) \<in> p_cand ` set (probes2 TL s cm) \<and>
      match_start (snd (longest_match2 TL s cm)) < strstart s \<and>
      (cm < strstart s \<and> strstart s - cm \<le> max_dist s \<longrightarrow>
         dist_limit s \<le> match_start (snd (longest_match2 TL s cm)) \<and>
         strstart s - match_start (snd (longest_match2 TL s cm)) \<le> max_dist s)) \<and>
   (\<not> (\<exists>e\<in>set (probes2 TL s cm). improves e) \<longrightarrow>
      match_start (snd (longest_match2 TL s cm)) = match_start s)"
proof -
  have p1: "p_cand e < strstart s \<and>
      (cm < strstart s \<and> strstart s - cm \<le> max_dist s \<longrightarrow>
         dist_limit s \<le> p_cand e \<and> strstart s - p_cand e \<le> max_dist s)"
    if "e \<in> set (probes1 TL s cm)" for e
    using probes1_facts [OF that] probes1_range [OF that] by simp
  have q1: "match_start (snd (longest_match1 TL s cm)) \<in> p_cand ` set (probes1 TL s cm) \<and>
      match_start (snd (longest_match1 TL s cm)) < strstart s \<and>
      (cm < strstart s \<and> strstart s - cm \<le> max_dist s \<longrightarrow>
         dist_limit s \<le> match_start (snd (longest_match1 TL s cm)) \<and>
         strstart s - match_start (snd (longest_match1 TL s cm)) \<le> max_dist s)"
    if "\<exists>e\<in>set (probes1 TL s cm). improves e"
  proof -
    from that lm1_result [of TL s cm] obtain e
      where "find (\<lambda>e. p_len e = Some (best_found1 TL s cm)) (probes1 TL s cm) = Some e"
        and m: "p_cand e = match_start (snd (longest_match1 TL s cm))"
      by auto
    then have e: "e \<in> set (probes1 TL s cm)" by (metis find_Some_iff nth_mem)
    then have "match_start (snd (longest_match1 TL s cm)) \<in> p_cand ` set (probes1 TL s cm)"
      using m by (metis imageI)
    then show ?thesis using p1 [OF e] m by simp
  qed
  have n1: "match_start (snd (longest_match1 TL s cm)) = match_start s"
    if "\<not> (\<exists>e\<in>set (probes1 TL s cm). improves e)"
    using that lm1_result [of TL s cm] by auto
  have p2: "p_cand e < strstart s \<and>
      (cm < strstart s \<and> strstart s - cm \<le> max_dist s \<longrightarrow>
         dist_limit s \<le> p_cand e \<and> strstart s - p_cand e \<le> max_dist s)"
    if "e \<in> set (probes2 TL s cm)" for e
    using probes2_facts [OF that] probes2_range [OF that] by simp
  have q2: "match_start (snd (longest_match2 TL s cm)) \<in> p_cand ` set (probes2 TL s cm) \<and>
      match_start (snd (longest_match2 TL s cm)) < strstart s \<and>
      (cm < strstart s \<and> strstart s - cm \<le> max_dist s \<longrightarrow>
         dist_limit s \<le> match_start (snd (longest_match2 TL s cm)) \<and>
         strstart s - match_start (snd (longest_match2 TL s cm)) \<le> max_dist s)"
    if "\<exists>e\<in>set (probes2 TL s cm). improves e"
  proof -
    from that lm2_result [of TL s cm] obtain e
      where "find (\<lambda>e. p_len e = Some (best_found2 TL s cm)) (probes2 TL s cm) = Some e"
        and m: "p_cand e = match_start (snd (longest_match2 TL s cm))"
      by auto
    then have e: "e \<in> set (probes2 TL s cm)" by (metis find_Some_iff nth_mem)
    then have "match_start (snd (longest_match2 TL s cm)) \<in> p_cand ` set (probes2 TL s cm)"
      using m by (metis imageI)
    then show ?thesis using p2 [OF e] m by simp
  qed
  have n2: "match_start (snd (longest_match2 TL s cm)) = match_start s"
    if "\<not> (\<exists>e\<in>set (probes2 TL s cm). improves e)"
    using that lm2_result [of TL s cm] by auto
  show ?thesis
  proof (intro conjI ballI impI)
    fix e
    assume "e \<in> set (probes1 TL s cm)"
    from p1 [OF this] show "p_cand e < strstart s" by simp
    assume "cm < strstart s \<and> strstart s - cm \<le> max_dist s"
    with p1 [OF \<open>e \<in> set (probes1 TL s cm)\<close>]
    show "dist_limit s \<le> p_cand e" and "strstart s - p_cand e \<le> max_dist s" by simp_all
  next
    fix e
    assume "e \<in> set (probes2 TL s cm)"
    from p2 [OF this] show "p_cand e < strstart s" by simp
    assume "cm < strstart s \<and> strstart s - cm \<le> max_dist s"
    with p2 [OF \<open>e \<in> set (probes2 TL s cm)\<close>]
    show "dist_limit s \<le> p_cand e" and "strstart s - p_cand e \<le> max_dist s" by simp_all
  next
    assume a: "\<exists>e\<in>set (probes1 TL s cm). improves e"
    from q1 [OF a]
    show "match_start (snd (longest_match1 TL s cm)) \<in> p_cand ` set (probes1 TL s cm)"
      and "match_start (snd (longest_match1 TL s cm)) < strstart s" by simp_all
    assume "cm < strstart s \<and> strstart s - cm \<le> max_dist s"
    with q1 [OF a] show "dist_limit s \<le> match_start (snd (longest_match1 TL s cm))"
      and "strstart s - match_start (snd (longest_match1 TL s cm)) \<le> max_dist s" by simp_all
  next
    assume a: "\<exists>e\<in>set (probes2 TL s cm). improves e"
    from q2 [OF a]
    show "match_start (snd (longest_match2 TL s cm)) \<in> p_cand ` set (probes2 TL s cm)"
      and "match_start (snd (longest_match2 TL s cm)) < strstart s" by simp_all
    assume "cm < strstart s \<and> strstart s - cm \<le> max_dist s"
    with q2 [OF a] show "dist_limit s \<le> match_start (snd (longest_match2 TL s cm))"
      and "strstart s - match_start (snd (longest_match2 TL s cm)) \<le> max_dist s" by simp_all
  next
    assume "\<not> (\<exists>e\<in>set (probes1 TL s cm). improves e)"
    then show "match_start (snd (longest_match1 TL s cm)) = match_start s" by (rule n1)
  next
    assume "\<not> (\<exists>e\<in>set (probes2 TL s cm). improves e)"
    then show "match_start (snd (longest_match2 TL s cm)) = match_start s" by (rule n2)
  qed
qed

theorem start_in_range_witness:
  "(\<exists>e\<in>set (probes1 5 st_far 100). improves e) \<and>
   (\<exists>e\<in>set (probes2 5 st_far 100). improves e) \<and> (100 :: 32 word) < strstart st_far \<and>
   strstart st_far - 100 \<le> max_dist st_far \<and>
   strstart st_far = 300 \<and> dist_limit st_far = 50 \<and>
   match_start (snd (longest_match1 5 st_far 100)) = 100 \<and>
   match_start (snd (longest_match1 5 st_far 100)) < strstart st_far \<and>
   dist_limit st_far \<le> match_start (snd (longest_match1 5 st_far 100)) \<and>
   strstart st_far - match_start (snd (longest_match1 5 st_far 100)) \<le> max_dist st_far \<and>
   match_start (snd (longest_match2 5 st_far 100)) = 100 \<and>
   match_start (snd (longest_match2 5 st_far 100)) < strstart st_far \<and>
   dist_limit st_far \<le> match_start (snd (longest_match2 5 st_far 100)) \<and>
   strstart st_far - match_start (snd (longest_match2 5 st_far 100)) \<le> max_dist st_far"
proof -
  have c: "probes1 5 st_far 100 = [\<lparr>p_cand = 100, p_best = 2, p_len = Some 4\<rparr>] \<and>
    probes2 5 st_far 100 = [\<lparr>p_cand = 100, p_best = 2, p_len = Some 4\<rparr>] \<and>
    (100 :: 32 word) < strstart st_far \<and> strstart st_far - 100 \<le> max_dist st_far \<and>
    match_start (snd (longest_match1 5 st_far 100)) = 100 \<and>
    match_start (snd (longest_match2 5 st_far 100)) = 100 \<and> strstart st_far = 300 \<and>
    dist_limit st_far = 50"
    by code_simp
  then have h: "\<exists>e\<in>set (probes1 5 st_far 100). improves e"
    "\<exists>e\<in>set (probes2 5 st_far 100). improves e" by (simp_all add: improves_def)
  from start_in_range [of 5 st_far 100] h c show ?thesis by blast
qed

text \<open>
  The head 18 matches in five bytes and links to 29, the current position. std1 and std2
  leave the loop at the test \<open>cur_match >= s->strstart\<close> and report the five bytes at
  18; std3 compares the current string with itself and writes 29, which is \<open>strstart\<close>,
  to \<open>match_start\<close>.
\<close>

theorem start_in_range_counterexample:
  "in_assertions st_self 18 \<and> strstart st_self = 29 \<and>
   ucast (prev st_self (uint (18 AND w_mask st_self))) = (29 :: 32 word) \<and>
   fst (longest_match3 st_self 18) = 8 \<and>
   match_start (snd (longest_match3 st_self 18)) = 29 \<and>
   \<not> match_start (snd (longest_match3 st_self 18)) < strstart st_self \<and>
   fst (longest_match1 5 st_self 18) = 5 \<and> match_start (snd (longest_match1 5 st_self 18)) = 18 \<and>
   fst (longest_match2 5 st_self 18) = 5 \<and> match_start (snd (longest_match2 5 st_self 18)) = 18"
  by code_simp

end
